theory Spec2Isabelle
  imports Main
begin

chapter \<open>The Javadoc scraper \<^verbatim>\<open>docs/scrape_javadoc.py\<close>\<close>

text \<open>
  A shallow embedding of \<^verbatim>\<open>docs/scrape_javadoc.py\<close>: a breadth-first crawl confined
  to a URL prefix that converts every fetched HTML page to normalised text and mirrors it
  under an output directory.

  Conventions of the model.
  \<^item> A Python \<^verbatim>\<open>str\<close> is a \<^typ>\<open>string\<close>. Isabelle's \<^typ>\<open>char\<close> has 256 values, read here
    as the code points 0 to 255 (Latin-1); Python's whitespace and case tables are the ones of
    that range.
  \<^item> Every exception of the source is a value: functions that can raise return
    \<open>exn + 'a\<close> with \<open>Inl\<close> the exception.
  \<^item> Functions of the standard library (\<^verbatim>\<open>str\<close> methods, \<^verbatim>\<open>re.sub\<close> at the four
    patterns the source uses, \<^verbatim>\<open>urllib.parse\<close>, \<^verbatim>\<open>pathlib\<close>) are modelled from
    CPython 3.11 on a POSIX system and carry the prefix \<open>py_\<close>, \<open>url\<close> or \<open>path\<close>.
  \<^item> The HTML parser and the network are outside the program: a parsed document is a value
    of type \<open>node\<close>, and the answers of the network, of the parser and of the file system
    are fields of an environment record.
\<close>

section \<open>Definitions\<close>

subsection \<open>Exceptions\<close>

text \<open>
  The exceptions the program can meet: \<^verbatim>\<open>ValueError\<close> (from \<^verbatim>\<open>urllib.parse\<close> and
  \<^verbatim>\<open>pathlib\<close>), \<^verbatim>\<open>AttributeError\<close> (a method of \<^verbatim>\<open>str\<close> called on a list),
  \<^verbatim>\<open>OSError\<close> (the file system), and the two kinds of
  \<^verbatim>\<open>requests.exceptions.RequestException\<close>: a failure of the connection (no route, reset,
  timeout, too many redirects) and the \<^verbatim>\<open>HTTPError\<close> of \<^verbatim>\<open>raise_for_status\<close> with its
  status code.
\<close>

datatype exn =
    ValueError
  | AttributeError
  | OSError
  | ConnectionFailed
  | HTTPError int

subsection \<open>Python strings\<close>

abbreviation NL :: char where "NL \<equiv> CHR 0x0A"
abbreviation CR :: char where "CR \<equiv> CHR 0x0D"
abbreviation TAB :: char where "TAB \<equiv> CHR 0x09"
abbreviation SP :: char where "SP \<equiv> CHR '' ''"

text \<open>\<^verbatim>\<open>str.isspace\<close> on one character: the whitespace code points below 256.\<close>

definition py_isspace :: "char \<Rightarrow> bool" where
  "py_isspace c = (c \<in> {CHR 0x09, CHR 0x0A, CHR 0x0B, CHR 0x0C, CHR 0x0D,
                       CHR 0x1C, CHR 0x1D, CHR 0x1E, CHR 0x1F, CHR 0x20, CHR 0x85, CHR 0xA0})"

text \<open>\<^verbatim>\<open>s.lstrip()\<close>, \<^verbatim>\<open>s.rstrip()\<close> and \<^verbatim>\<open>s.strip()\<close> without argument.\<close>

definition py_lstrip :: "string \<Rightarrow> string" where
  "py_lstrip s = dropWhile py_isspace s"

definition py_rstrip :: "string \<Rightarrow> string" where
  "py_rstrip s = rev (dropWhile py_isspace (rev s))"

definition py_strip :: "string \<Rightarrow> string" where
  "py_strip s = py_rstrip (py_lstrip s)"

text \<open>\<^verbatim>\<open>s.startswith(p)\<close> and \<^verbatim>\<open>s.endswith(p)\<close>.\<close>

definition py_startswith :: "string \<Rightarrow> string \<Rightarrow> bool" where
  "py_startswith s p = (take (length p) s = p)"

definition py_endswith :: "string \<Rightarrow> string \<Rightarrow> bool" where
  "py_endswith s p = (length p \<le> length s \<and> drop (length s - length p) s = p)"

text \<open>
  \<^verbatim>\<open>s.replace(old, new)\<close>: the occurrences of \<open>old\<close> are replaced from left to right
  without overlap; an empty \<open>old\<close> matches before every character and at the end.
\<close>

function py_replace :: "string \<Rightarrow> string \<Rightarrow> string \<Rightarrow> string" where
  "py_replace old new s =
     (if old = [] then new @ concat (map (\<lambda>c. c # new) s)
      else if py_startswith s old then new @ py_replace old new (drop (length old) s)
      else (case s of [] \<Rightarrow> [] | c # t \<Rightarrow> c # py_replace old new t))"
  by pat_completeness auto
termination
proof (relation "measure (\<lambda>(old, new, s). length s)")
  fix old new s :: string
  assume "old \<noteq> []" "py_startswith s old"
  then have "0 < length old" "length old \<le> length s"
    using length_take [of "length old" s] by (auto simp: py_startswith_def)
  then show "((old, new, drop (length old) s), (old, new, s)) \<in> measure (\<lambda>(old, new, s). length s)"
    by (cases old) auto
qed auto

declare py_replace.simps [simp del]

text \<open>\<^verbatim>\<open>sep.join(xs)\<close>.\<close>

fun py_join :: "string \<Rightarrow> string list \<Rightarrow> string" where
  "py_join sep [] = []"
| "py_join sep [x] = x"
| "py_join sep (x # y # xs) = x @ sep @ py_join sep (y # xs)"

text \<open>\<^verbatim>\<open>s.split(c)\<close> for a one-character separator.\<close>

fun split_on :: "char \<Rightarrow> string \<Rightarrow> string list" where
  "split_on c [] = [[]]"
| "split_on c (x # s) =
     (if x = c then [] # split_on c s
      else (case split_on c s of [] \<Rightarrow> [[x]] | l # ls \<Rightarrow> (x # l) # ls))"

text \<open>
  \<^verbatim>\<open>s.lower()\<close>: the ASCII capitals and the Latin-1 capitals (0xC0 to 0xDE without the
  multiplication sign 0xD7) move up by 32.
\<close>

definition py_lower_char :: "char \<Rightarrow> char" where
  "py_lower_char c =
     (let n = (of_char c :: nat)
      in if (65 \<le> n \<and> n \<le> 90) \<or> (192 \<le> n \<and> n \<le> 222 \<and> n \<noteq> 215)
         then char_of (n + 32) else c)"

definition py_lower :: "string \<Rightarrow> string" where
  "py_lower s = map py_lower_char s"

subsection \<open>Text normalisation (\<^verbatim>\<open>normalize\<close>, lines 26 to 31)\<close>

text \<open>
  \<^verbatim>\<open>re.sub(r"[ \t]+", " ", s)\<close>: every maximal run of spaces and tabs becomes one space.
\<close>

function (sequential) sub_hspace :: "string \<Rightarrow> string" where
  "sub_hspace [] = []"
| "sub_hspace (c # s) =
     (if c = SP \<or> c = TAB then SP # sub_hspace (dropWhile (\<lambda>x. x = SP \<or> x = TAB) s)
      else c # sub_hspace s)"
  by pat_completeness auto
termination
  by (relation "measure length") (auto simp: length_dropWhile_le le_imp_less_Suc)

text \<open>
  \<^verbatim>\<open>re.sub(r" *\n *", "\n", s)\<close>. The scan tries a match at every position from the left:
  at a newline the match is the newline and the spaces after it; at a space the match exists
  only when the run of spaces starting there ends in a newline, and then it also takes the
  spaces after that newline; anywhere else (and at a space whose run does not end in a newline)
  the character is copied and the scan moves one position on.
\<close>

function (sequential) sub_nl_trim :: "string \<Rightarrow> string" where
  "sub_nl_trim [] = []"
| "sub_nl_trim (c # s) =
     (if c = NL then NL # sub_nl_trim (dropWhile (\<lambda>x. x = SP) s)
      else if c = SP then
        (case dropWhile (\<lambda>x. x = SP) s of
           [] \<Rightarrow> c # sub_nl_trim s
         | d # r \<Rightarrow> if d = NL then NL # sub_nl_trim (dropWhile (\<lambda>x. x = SP) r)
                    else c # sub_nl_trim s)
      else c # sub_nl_trim s)"
  by pat_completeness auto
termination
proof (relation "measure length")
  fix c :: char and s r :: string and d :: char
  assume "dropWhile (\<lambda>x. x = SP) s = d # r"
  then have "Suc (length r) \<le> length s"
    using length_dropWhile_le [of "\<lambda>x. x = SP" s] by simp
  moreover have "length (dropWhile (\<lambda>x. x = SP) r) \<le> length r"
    by (rule length_dropWhile_le)
  ultimately show "(dropWhile (\<lambda>x. x = SP) r, c # s) \<in> measure length"
    by simp
qed (auto simp: length_dropWhile_le le_imp_less_Suc)

text \<open>
  \<^verbatim>\<open>re.sub(r"\n{3,}", "\n\n", s)\<close>: a maximal run of three or more newlines becomes two
  newlines; shorter runs are copied.
\<close>

function (sequential) sub_nl_runs :: "string \<Rightarrow> string" where
  "sub_nl_runs [] = []"
| "sub_nl_runs (c # s) =
     (if c = NL then
        (if 3 \<le> length (takeWhile (\<lambda>x. x = NL) (c # s))
         then NL # NL # sub_nl_runs (dropWhile (\<lambda>x. x = NL) s)
         else c # sub_nl_runs s)
      else c # sub_nl_runs s)"
  by pat_completeness auto
termination
  by (relation "measure length") (auto simp: length_dropWhile_le le_imp_less_Suc)

text \<open>The five statements of \<^verbatim>\<open>normalize\<close>, in the order of the source.\<close>

definition normalize_str :: "string \<Rightarrow> string" where
  "normalize_str s0 =
     (let s = py_replace [CR] [NL] (py_replace [CR, NL] [NL] s0);
          s = sub_hspace s;
          s = sub_nl_trim s;
          s = sub_nl_runs s
      in py_strip s @ [NL])"

subsection \<open>Parsed HTML (the objects of \<^verbatim>\<open>bs4\<close>)\<close>

text \<open>
  The value of an attribute: a string, or a list of strings for the attributes the parser
  splits at whitespace (\<^verbatim>\<open>class\<close> among them).
\<close>

datatype attr_value = AttrStr string | AttrList "string list"

text \<open>
  A node of the parsed tree.
  \<^item> \<open>Text s\<close>: a \<^verbatim>\<open>NavigableString\<close> or \<^verbatim>\<open>CData\<close> object with value \<open>s\<close>.
  \<^item> \<open>Special s\<close>: an object of another subclass of \<^verbatim>\<open>NavigableString\<close> (a comment,
    a doctype, a declaration, a processing instruction): \<^verbatim>\<open>isinstance(el, NavigableString)\<close>
    holds for it, and \<^verbatim>\<open>get_text\<close> leaves it out.
  \<^item> \<open>Tag name attrs children\<close>: a \<^verbatim>\<open>Tag\<close>. The \<^verbatim>\<open>BeautifulSoup\<close> object itself is
    the tag named \<^verbatim>\<open>[document]\<close>.
\<close>

datatype node =
    Text string
  | Special string
  | Tag string "(string \<times> attr_value) list" "node list"

text \<open>\<^verbatim>\<open>el.descendants\<close>: the nodes below \<open>el\<close> in document order.\<close>

fun descendants :: "node \<Rightarrow> node list" where
  "descendants (Text s) = []"
| "descendants (Special s) = []"
| "descendants (Tag nm attrs kids) = concat (map (\<lambda>k. k # descendants k) kids)"

fun is_tag_named :: "string list \<Rightarrow> node \<Rightarrow> bool" where
  "is_tag_named names (Tag nm attrs kids) = (nm \<in> set names)"
| "is_tag_named names el = False"

text \<open>\<^verbatim>\<open>el.find_all(names)\<close> for a list of tag names.\<close>

definition find_all :: "string list \<Rightarrow> node \<Rightarrow> node list" where
  "find_all names el = filter (is_tag_named names) (descendants el)"

text \<open>
  \<^verbatim>\<open>el.get_text(separator, strip)\<close>: the strings below \<open>el\<close> of type
  \<^verbatim>\<open>NavigableString\<close> or \<^verbatim>\<open>CData\<close> in document order; with \<^verbatim>\<open>strip=True\<close> each is
  stripped and the empty ones are dropped; the rest is joined with the separator.
\<close>

fun all_strings :: "node \<Rightarrow> string list" where
  "all_strings (Text s) = [s]"
| "all_strings (Special s) = []"
| "all_strings (Tag nm attrs kids) = concat (map all_strings kids)"

definition get_text :: "string \<Rightarrow> bool \<Rightarrow> node \<Rightarrow> string" where
  "get_text separator strip el =
     py_join separator
       (if strip then filter (\<lambda>s. s \<noteq> []) (map py_strip (all_strings el))
        else all_strings el)"

text \<open>\<^verbatim>\<open>x in s\<close> for strings: \<open>x\<close> occurs in \<open>s\<close>.\<close>

fun py_contains :: "string \<Rightarrow> string \<Rightarrow> bool" where
  "py_contains [] x = (x = [])"
| "py_contains (c # s) x = (py_startswith (c # s) x \<or> py_contains s x)"

subsection \<open>HTML to text (lines 17 to 157)\<close>

definition JUNK_TAGS :: "string list" where
  "JUNK_TAGS = [''script'', ''style'', ''noscript'']"

text \<open>
  Lines 80 and 81: every tag whose name is in \<^const>\<open>JUNK_TAGS\<close> is removed from the tree
  with all that is below it.
\<close>

fun decompose_junk :: "node \<Rightarrow> node" where
  "decompose_junk (Text s) = Text s"
| "decompose_junk (Special s) = Special s"
| "decompose_junk (Tag nm attrs kids) =
     Tag nm attrs (map decompose_junk (filter (\<lambda>k. \<not> is_tag_named JUNK_TAGS k) kids))"

text \<open>
  The attribute filters of \<^verbatim>\<open>soup.find(tag, attrs=...)\<close> in \<^verbatim>\<open>pick_main_content\<close>: a
  string matches a string attribute that is equal to it, and a list attribute one of whose
  members, or whose members joined by a space, are equal to it.
\<close>

fun attr_matches :: "attr_value option \<Rightarrow> string \<Rightarrow> bool" where
  "attr_matches None x = False"
| "attr_matches (Some (AttrStr v)) x = (v = x)"
| "attr_matches (Some (AttrList vs)) x = (x \<in> set vs \<or> py_join '' '' vs = x)"

fun has_attr :: "string \<Rightarrow> string \<Rightarrow> node \<Rightarrow> bool" where
  "has_attr key x (Tag nm attrs kids) = attr_matches (map_of attrs key) x"
| "has_attr key x el = False"

text \<open>\<^verbatim>\<open>soup.find(...)\<close>: the first match in document order, if any.\<close>

definition find_first :: "(node \<Rightarrow> bool) \<Rightarrow> node \<Rightarrow> node option" where
  "find_first p el = (case filter p (descendants el) of [] \<Rightarrow> None | x # xs \<Rightarrow> Some x)"

fun first_some :: "'a option list \<Rightarrow> 'a option" where
  "first_some [] = None"
| "first_some (None # xs) = first_some xs"
| "first_some (Some x # xs) = Some x"

text \<open>\<^verbatim>\<open>pick_main_content\<close> (lines 45 to 64): the fallbacks in the order of the source.\<close>

definition pick_main_content :: "node \<Rightarrow> node" where
  "pick_main_content soup =
     (case find_first (is_tag_named [''main'']) soup of
        Some main \<Rightarrow> main
      | None \<Rightarrow>
          (case first_some
             [find_first (\<lambda>el. is_tag_named [''div''] el \<and> has_attr ''class'' ''contentContainer'' el) soup,
              find_first (\<lambda>el. is_tag_named [''div''] el \<and> has_attr ''class'' ''content'' el) soup,
              find_first (\<lambda>el. is_tag_named [''div''] el \<and> has_attr ''id'' ''content'' el) soup,
              find_first (is_tag_named [''article'']) soup,
              find_first (is_tag_named [''body'']) soup] of
             Some found \<Rightarrow> found
           | None \<Rightarrow> soup))"

text \<open>
  \<^verbatim>\<open>table_to_text\<close> (lines 66 to 75): one entry per \<^verbatim>\<open>tr\<close> below the table that has a
  \<^verbatim>\<open>th\<close> or \<^verbatim>\<open>td\<close> below it; the entries are joined by newlines.
\<close>

definition row_cells :: "node \<Rightarrow> string list" where
  "row_cells tr = map (get_text '' '' True) (find_all [''th'', ''td''] tr)"

definition table_rows :: "node \<Rightarrow> string list" where
  "table_rows table =
     concat (map (\<lambda>tr. let cells = row_cells tr
                        in if cells \<noteq> [] then [py_join '' | '' cells] else [])
                 (find_all [''tr''] table))"

definition table_to_text :: "node \<Rightarrow> string" where
  "table_to_text table = py_join [NL] (table_rows table)"

text \<open>\<^verbatim>\<open>emit\<close> (lines 87 to 89) appends a non-empty string to \<^verbatim>\<open>out\<close>.\<close>

definition emit :: "string \<Rightarrow> string list" where
  "emit txt = (if txt \<noteq> [] then [txt] else [])"

text \<open>\<^verbatim>\<open>el.get("class", [])\<close> as the argument of \<^verbatim>\<open>" ".join\<close>: a string is joined
  character by character.\<close>

definition get_class :: "(string \<times> attr_value) list \<Rightarrow> string list" where
  "get_class attrs =
     (case map_of attrs ''class'' of
        None \<Rightarrow> []
      | Some (AttrList vs) \<Rightarrow> vs
      | Some (AttrStr v) \<Rightarrow> map (\<lambda>c. [c]) v)"

definition NAV_CLASSES :: "string list" where
  "NAV_CLASSES = [''navbar'', ''navlist'', ''header'', ''footer'', ''side'', ''sidebar'',
                  ''indexnav'', ''topnav'']"

definition BLOCK_TAGS :: "string list" where
  "BLOCK_TAGS = [''p'', ''div'', ''section'', ''article'', ''main'', ''ul'', ''ol'',
                 ''blockquote'', ''dl'', ''dt'', ''dd'', ''hr'']"

text \<open>\<^verbatim>\<open>int(name[1])\<close> for the six heading names.\<close>

definition heading_level :: "string \<Rightarrow> nat option" where
  "heading_level name =
     map_of [(''h1'', 1), (''h2'', 2), (''h3'', 3), (''h4'', 4), (''h5'', 5), (''h6'', 6)] name"

text \<open>
  \<^verbatim>\<open>walk\<close> (lines 91 to 154). The result is the list of strings the call appends to
  \<^verbatim>\<open>out\<close>, in order.
\<close>

fun walk :: "node \<Rightarrow> string list" where
  "walk (Text s) = emit s"
| "walk (Special s) = emit s"
| "walk (Tag nm attrs kids) =
     (let name = py_lower nm;
          cls = py_lower (py_join '' '' (get_class attrs))
      in if name \<in> set [''nav'', ''header'', ''footer''] then []
         else if list_ex (\<lambda>x. py_contains cls x) NAV_CLASSES then []
         else if name \<in> set JUNK_TAGS then []
         else case heading_level name of
           Some level \<Rightarrow>
             emit ([NL, NL] @ replicate level (CHR ''#'') @ '' ''
                   @ get_text '' '' True (Tag nm attrs kids) @ [NL, NL])
         | None \<Rightarrow>
             if name = ''pre'' then
               emit ([NL, NL] @ replicate 3 (CHR 0x60) @ [NL]
                     @ py_rstrip (get_text [NL] False (Tag nm attrs kids))
                     @ [NL] @ replicate 3 (CHR 0x60) @ [NL, NL])
             else if name = ''table'' then
               emit ([NL, NL] @ table_to_text (Tag nm attrs kids) @ [NL, NL])
             else if name = ''br'' then emit [NL]
             else if name = ''li'' then
               (let txt = get_text '' '' True (Tag nm attrs kids)
                in if txt \<noteq> [] then emit ([NL] @ ''- '' @ txt @ [NL]) else [])
             else if name = ''hr'' then
               emit ([NL, NL] @ replicate 40 (CHR ''-'') @ [NL, NL])
             else
               (if name \<in> set BLOCK_TAGS then emit [NL] else [])
               @ concat (map walk kids)
               @ (if name \<in> set BLOCK_TAGS then emit [NL] else []))"

text \<open>
  \<^verbatim>\<open>html_to_text\<close> (lines 77 to 157) from the parsed document on: the argument is the
  value of \<^verbatim>\<open>BeautifulSoup(html, "html.parser")\<close>.
\<close>

definition html_to_text :: "node \<Rightarrow> string" where
  "html_to_text soup =
     (let soup = decompose_junk soup;
          root = pick_main_content soup;
          out = walk root
      in normalize_str (concat out))"

subsection \<open>Paths (\<^verbatim>\<open>pathlib.PurePosixPath\<close>)\<close>

text \<open>
  A path object: its \<^verbatim>\<open>_root\<close> (empty, one slash or two slashes) and its \<^verbatim>\<open>_parts\<close>,
  whose first element is the root when there is one. The drive is always empty on POSIX.
\<close>

datatype path = Path (path_root: string) (path_parts: "string list")

text \<open>\<^verbatim>\<open>_PosixFlavour.splitroot\<close>: the root and the rest of one argument.\<close>

definition splitroot :: "string \<Rightarrow> string \<times> string" where
  "splitroot part =
     (if part \<noteq> [] \<and> hd part = CHR ''/'' then
        (let stripped_part = dropWhile (\<lambda>c. c = CHR ''/'') part
         in if length part - length stripped_part = 2 then (''//'', stripped_part)
            else (''/'', stripped_part))
      else ([], part))"

text \<open>
  The components of the rest: the pieces between slashes that are neither empty nor a
  single dot.
\<close>

definition components :: "string \<Rightarrow> string list" where
  "components rel = filter (\<lambda>x. x \<noteq> [] \<and> x \<noteq> ''.'') (split_on (CHR ''/'') rel)"

text \<open>
  \<^verbatim>\<open>_Flavour.parse_parts\<close>. The source walks the arguments from the last to the first and
  stops at the first one with a root; \<open>parse_rev\<close> takes the reversed list of arguments and
  returns the root and the components in their final order.
\<close>

fun parse_rev :: "string list \<Rightarrow> string \<times> string list" where
  "parse_rev [] = ([], [])"
| "parse_rev (part # more) =
     (if part = [] then parse_rev more
      else (let (root, rel) = splitroot part
            in if root \<noteq> [] then (root, components rel)
               else (let (root', parsed) = parse_rev more
                     in (root', parsed @ components rel))))"

definition parse_parts :: "string list \<Rightarrow> path" where
  "parse_parts parts =
     (let (root, parsed) = parse_rev (rev parts)
      in Path root (if root \<noteq> [] then root # parsed else parsed))"

text \<open>\<^verbatim>\<open>Path(s)\<close> for one string.\<close>

definition Path_of :: "string \<Rightarrow> path" where
  "Path_of s = parse_parts [s]"

text \<open>\<^verbatim>\<open>p.name\<close>: the last part, empty when the path has none but its root.\<close>

definition path_name :: "path \<Rightarrow> string" where
  "path_name p =
     (if length (path_parts p) = (if path_root p \<noteq> [] then 1 else 0) then []
      else last (path_parts p))"

text \<open>\<^verbatim>\<open>name.rfind('.')\<close>: the index of the last dot, or \<open>-1\<close>.\<close>

fun py_rfind :: "char \<Rightarrow> string \<Rightarrow> int" where
  "py_rfind c [] = -1"
| "py_rfind c (x # s) =
     (let i = py_rfind c s
      in if 0 \<le> i then i + 1 else if x = c then 0 else -1)"

text \<open>\<^verbatim>\<open>p.suffix\<close> and \<^verbatim>\<open>p.stem\<close>.\<close>

definition path_suffix :: "path \<Rightarrow> string" where
  "path_suffix p =
     (let name = path_name p; i = py_rfind (CHR ''.'') name
      in if 0 < i \<and> i < int (length name) - 1 then drop (nat i) name else [])"

definition path_stem :: "path \<Rightarrow> string" where
  "path_stem p =
     (let name = path_name p; i = py_rfind (CHR ''.'') name
      in if 0 < i \<and> i < int (length name) - 1 then take (nat i) name else name)"

text \<open>
  \<^verbatim>\<open>p.with_suffix(suffix)\<close>: \<^verbatim>\<open>ValueError\<close> for a suffix with a slash, for a non-empty
  suffix that does not start with a dot, for the suffix that is a single dot, and for a path
  with an empty name.
\<close>

definition with_suffix :: "path \<Rightarrow> string \<Rightarrow> exn + path" where
  "with_suffix p suffix =
     (if CHR ''/'' \<in> set suffix then Inl ValueError
      else if (suffix \<noteq> [] \<and> \<not> py_startswith suffix ''.'') \<or> suffix = ''.'' then Inl ValueError
      else (let name = path_name p
            in if name = [] then Inl ValueError
               else (let old_suffix = path_suffix p;
                         name = (if old_suffix = [] then name @ suffix
                                 else take (length name - length old_suffix) name @ suffix)
                     in Inr (Path (path_root p) (butlast (path_parts p) @ [name])))))"

text \<open>
  \<^verbatim>\<open>p / q\<close> for two paths (\<^verbatim>\<open>_make_child\<close> and \<^verbatim>\<open>join_parsed_parts\<close>): the parts of
  \<open>q\<close> are parsed again; a \<open>q\<close> with a root replaces \<open>p\<close>.
\<close>

definition path_join :: "path \<Rightarrow> path \<Rightarrow> path" where
  "path_join p q =
     (let q' = parse_parts (path_parts q)
      in if path_root q' \<noteq> [] then q'
         else Path (path_root p) (path_parts p @ path_parts q'))"

text \<open>
  \<^verbatim>\<open>p.relative_to(other)\<close> raises \<^verbatim>\<open>ValueError\<close> unless the parts of \<open>other\<close> (with the
  empty drive in front of a root) start the parts of \<open>p\<close>; \<open>relative_to_ok\<close> is the
  condition under which it returns.
\<close>

definition abs_parts :: "path \<Rightarrow> string list" where
  "abs_parts p =
     (if path_root p \<noteq> [] then [[], path_root p] @ tl (path_parts p) else path_parts p)"

definition relative_to_ok :: "path \<Rightarrow> path \<Rightarrow> bool" where
  "relative_to_ok p other =
     (let to_abs_parts = abs_parts (parse_parts (path_parts other));
          n = length to_abs_parts
      in if n = 0 then path_root p = []
         else take n (abs_parts p) = to_abs_parts)"

text \<open>\<^verbatim>\<open>str(p)\<close>.\<close>

definition path_str :: "path \<Rightarrow> string" where
  "path_str p =
     (let s = (if path_root p \<noteq> [] then path_root p @ py_join ''/'' (tl (path_parts p))
               else py_join ''/'' (path_parts p))
      in if s = [] then ''.'' else s)"

subsection \<open>The path of a page (\<^verbatim>\<open>url_to_outpath\<close>, lines 159 to 172)\<close>

text \<open>
  Lines 161 to 166: the string given to \<^verbatim>\<open>Path\<close>. \<^verbatim>\<open>url[len(root):]\<close> drops the first
  \<^verbatim>\<open>len(root)\<close> characters; \<^verbatim>\<open>rel.split("?", 1)[0]\<close> is what stands before the first
  question mark.
\<close>

definition outpath_rel :: "string \<Rightarrow> string \<Rightarrow> string" where
  "outpath_rel url root =
     (let rel = drop (length root) url;
          rel = (if rel = [] \<or> py_endswith rel ''/'' then rel @ ''index.html'' else rel)
      in takeWhile (\<lambda>c. c \<noteq> CHR ''?'') rel)"

definition url_to_outpath :: "string \<Rightarrow> string \<Rightarrow> path \<Rightarrow> exn + path" where
  "url_to_outpath url root outdir =
     (let rel_path = Path_of (outpath_rel url root)
      in case (if py_lower (path_suffix rel_path) \<in> set [''.html'', ''.htm'']
               then with_suffix rel_path ''.txt''
               else with_suffix rel_path (path_suffix rel_path @ ''.txt'')) of
           Inl e \<Rightarrow> Inl e
         | Inr rel_path \<Rightarrow> Inr (path_join outdir rel_path))"

subsection \<open>URLs (\<^verbatim>\<open>urllib.parse\<close>)\<close>

text \<open>
  Two checks of \<^verbatim>\<open>urlsplit\<close> rest on tables that are not modelled: the check of a host in
  brackets (\<^verbatim>\<open>_check_bracketed_host\<close>, which parses IP addresses) and the check of a
  network location with characters outside ASCII (\<^verbatim>\<open>_checknetloc\<close>, which normalises
  Unicode). Their verdicts are parameters: \<open>True\<close> means that the check does not raise.
\<close>

record host_checks =
  bracketed_host_ok :: "string \<Rightarrow> bool"
  nfkc_ok :: "string \<Rightarrow> bool"

text \<open>The six fields of a \<^verbatim>\<open>ParseResult\<close>.\<close>

record parse_result =
  u_scheme :: string
  u_netloc :: string
  u_path :: string
  u_params :: string
  u_query :: string
  u_fragment :: string

definition uses_relative :: "string list" where
  "uses_relative = ['''', ''ftp'', ''http'', ''gopher'', ''nntp'', ''imap'',
                    ''wais'', ''file'', ''https'', ''shttp'', ''mms'',
                    ''prospero'', ''rtsp'', ''rtsps'', ''rtspu'', ''sftp'',
                    ''svn'', ''svn+ssh'', ''ws'', ''wss'']"

definition uses_netloc :: "string list" where
  "uses_netloc = ['''', ''ftp'', ''http'', ''gopher'', ''nntp'', ''telnet'',
                  ''imap'', ''wais'', ''file'', ''mms'', ''https'', ''shttp'',
                  ''snews'', ''prospero'', ''rtsp'', ''rtsps'', ''rtspu'', ''rsync'',
                  ''svn'', ''svn+ssh'', ''sftp'', ''nfs'', ''git'', ''git+ssh'',
                  ''ws'', ''wss'']"

definition uses_params :: "string list" where
  "uses_params = ['''', ''ftp'', ''hdl'', ''prospero'', ''http'', ''imap'',
                  ''https'', ''shttp'', ''rtsp'', ''rtsps'', ''rtspu'', ''sip'',
                  ''sips'', ''mms'', ''sftp'', ''tel'']"

text \<open>Character classes: C0 control or space; ASCII; ASCII letter; \<^verbatim>\<open>scheme_chars\<close>.\<close>

definition c0_or_space :: "char \<Rightarrow> bool" where
  "c0_or_space c = ((of_char c :: nat) \<le> 32)"

definition is_ascii :: "char \<Rightarrow> bool" where
  "is_ascii c = ((of_char c :: nat) < 128)"

definition is_ascii_alpha :: "char \<Rightarrow> bool" where
  "is_ascii_alpha c =
     (let n = (of_char c :: nat) in (65 \<le> n \<and> n \<le> 90) \<or> (97 \<le> n \<and> n \<le> 122))"

definition is_scheme_char :: "char \<Rightarrow> bool" where
  "is_scheme_char c =
     (let n = (of_char c :: nat)
      in is_ascii_alpha c \<or> (48 \<le> n \<and> n \<le> 57) \<or> c = CHR ''+'' \<or> c = CHR ''-'' \<or> c = CHR ''.'')"

text \<open>\<^verbatim>\<open>s.split(c, 1)\<close> for a character that occurs in \<open>s\<close>: before and after its first
  occurrence.\<close>

definition split_first :: "char \<Rightarrow> string \<Rightarrow> string \<times> string" where
  "split_first c s = (takeWhile (\<lambda>x. x \<noteq> c) s, drop 1 (dropWhile (\<lambda>x. x \<noteq> c) s))"

text \<open>The end of \<^verbatim>\<open>urlsplit\<close>: fragment, query, and the check of the network location.\<close>

definition checknetloc_ok :: "host_checks \<Rightarrow> string \<Rightarrow> bool" where
  "checknetloc_ok hc netloc = (netloc = [] \<or> list_all is_ascii netloc \<or> nfkc_ok hc netloc)"

definition urlsplit_rest :: "host_checks \<Rightarrow> string \<Rightarrow> string \<Rightarrow> string \<Rightarrow> exn + parse_result" where
  "urlsplit_rest hc scheme netloc url0 =
     (let (url, fragment) = (if CHR ''#'' \<in> set url0 then split_first (CHR ''#'') url0 else (url0, []));
          (url, query) = (if CHR ''?'' \<in> set url then split_first (CHR ''?'') url else (url, []))
      in if \<not> checknetloc_ok hc netloc then Inl ValueError
         else Inr \<lparr>u_scheme = scheme, u_netloc = netloc, u_path = url, u_params = [],
                   u_query = query, u_fragment = fragment\<rparr>)"

text \<open>
  \<^verbatim>\<open>urlsplit(url, scheme)\<close> with fragments allowed: leading C0 controls and spaces are
  stripped, tabs and line breaks are removed, then the scheme, the network location, the
  fragment and the query are split off.
\<close>

definition unsafe_byte :: "char \<Rightarrow> bool" where
  "unsafe_byte c = (c = TAB \<or> c = CR \<or> c = NL)"

definition urlsplit :: "host_checks \<Rightarrow> string \<Rightarrow> string \<Rightarrow> exn + parse_result" where
  "urlsplit hc url0 scheme0 =
     (let url = filter (\<lambda>c. \<not> unsafe_byte c) (dropWhile c0_or_space url0);
          scheme = filter (\<lambda>c. \<not> unsafe_byte c)
                     (rev (dropWhile c0_or_space (rev (dropWhile c0_or_space scheme0))));
          head = takeWhile (\<lambda>c. c \<noteq> CHR '':'') url;
          (scheme, url) =
            (if CHR '':'' \<in> set url \<and> head \<noteq> [] \<and> is_ascii_alpha (hd url)
                \<and> list_all is_scheme_char head
             then (py_lower head, drop (length head + 1) url)
             else (scheme, url))
      in if take 2 url = ''//'' then
           (let rest = drop 2 url;
                delim = (\<lambda>c. c = CHR ''/'' \<or> c = CHR ''?'' \<or> c = CHR ''#'');
                netloc = takeWhile (\<lambda>c. \<not> delim c) rest;
                url = dropWhile (\<lambda>c. \<not> delim c) rest;
                lb = (CHR ''['' \<in> set netloc);
                rb = (CHR '']'' \<in> set netloc)
            in if (lb \<and> \<not> rb) \<or> (rb \<and> \<not> lb) then Inl ValueError
               else if lb \<and> rb
                       \<and> \<not> bracketed_host_ok hc
                             (takeWhile (\<lambda>c. c \<noteq> CHR '']'')
                                (drop 1 (dropWhile (\<lambda>c. c \<noteq> CHR ''['') netloc)))
                    then Inl ValueError
               else urlsplit_rest hc scheme netloc url)
         else urlsplit_rest hc scheme [] url)"

text \<open>
  \<^verbatim>\<open>_splitparams\<close> and \<^verbatim>\<open>urlparse\<close>: for the schemes with parameters, what follows the
  first semicolon of the last path segment is split off the path.
\<close>

definition splitparams :: "string \<Rightarrow> string \<times> string" where
  "splitparams url =
     (if CHR ''/'' \<in> set url then
        (let k = nat (py_rfind (CHR ''/'') url); tail = drop k url
         in if CHR '';'' \<notin> set tail then (url, [])
            else (take k url @ takeWhile (\<lambda>c. c \<noteq> CHR '';'') tail,
                  drop 1 (dropWhile (\<lambda>c. c \<noteq> CHR '';'') tail)))
      else split_first (CHR '';'') url)"

definition urlparse :: "host_checks \<Rightarrow> string \<Rightarrow> string \<Rightarrow> exn + parse_result" where
  "urlparse hc url scheme =
     (case urlsplit hc url scheme of
        Inl e \<Rightarrow> Inl e
      | Inr r \<Rightarrow>
          if u_scheme r \<in> set uses_params \<and> CHR '';'' \<in> set (u_path r)
          then (let (p, params) = splitparams (u_path r)
                in Inr (r\<lparr>u_path := p, u_params := params\<rparr>))
          else Inr r)"

text \<open>\<^verbatim>\<open>urlunsplit\<close> and \<^verbatim>\<open>urlunparse\<close>.\<close>

definition urlunsplit :: "parse_result \<Rightarrow> string" where
  "urlunsplit r =
     (let url = u_path r;
          url = (if u_netloc r \<noteq> [] \<or> (u_scheme r \<noteq> [] \<and> u_scheme r \<in> set uses_netloc)
                    \<or> take 2 url = ''//''
                 then ''//'' @ u_netloc r
                      @ (if url \<noteq> [] \<and> take 1 url \<noteq> ''/'' then ''/'' @ url else url)
                 else url);
          url = (if u_scheme r \<noteq> [] then u_scheme r @ '':'' @ url else url);
          url = (if u_query r \<noteq> [] then url @ ''?'' @ u_query r else url);
          url = (if u_fragment r \<noteq> [] then url @ ''#'' @ u_fragment r else url)
      in url)"

definition urlunparse :: "parse_result \<Rightarrow> string" where
  "urlunparse r =
     urlunsplit (if u_params r \<noteq> [] then r\<lparr>u_path := u_path r @ '';'' @ u_params r\<rparr> else r)"

text \<open>
  The path resolution of \<^verbatim>\<open>urljoin\<close>: the middle segments lose their empty members
  (\<^verbatim>\<open>segments[1:-1] = filter(None, segments[1:-1])\<close>), then \<^verbatim>\<open>..\<close> removes the segment
  before it, if any, and \<^verbatim>\<open>.\<close> is dropped.
\<close>

definition squeeze_segments :: "string list \<Rightarrow> string list" where
  "squeeze_segments segments =
     (if 2 \<le> length segments
      then hd segments # filter (\<lambda>s. s \<noteq> []) (butlast (tl segments)) @ [last segments]
      else segments)"

definition resolve_segments :: "string list \<Rightarrow> string list" where
  "resolve_segments segments =
     foldl (\<lambda>resolved seg. if seg = ''..'' then butlast resolved
                             else if seg = ''.'' then resolved
                             else resolved @ [seg]) [] segments"

definition join_paths :: "string \<Rightarrow> string \<Rightarrow> string" where
  "join_paths bpath path =
     (let base_parts = split_on (CHR ''/'') bpath;
          base_parts = (if last base_parts \<noteq> [] then butlast base_parts else base_parts);
          segments = (if take 1 path = ''/'' then split_on (CHR ''/'') path
                      else squeeze_segments (base_parts @ split_on (CHR ''/'') path));
          resolved_path = resolve_segments segments;
          resolved_path = (if last segments \<in> set [''.'', ''..'']
                           then resolved_path @ [[]] else resolved_path);
          joined = py_join ''/'' resolved_path
      in if joined = [] then ''/'' else joined)"

text \<open>\<^verbatim>\<open>urljoin(base, url)\<close>.\<close>

definition urljoin :: "host_checks \<Rightarrow> string \<Rightarrow> string \<Rightarrow> exn + string" where
  "urljoin hc base url =
     (if base = [] then Inr url
      else if url = [] then Inr base
      else case urlparse hc base [] of
        Inl e \<Rightarrow> Inl e
      | Inr b \<Rightarrow>
         (case urlparse hc url (u_scheme b) of
            Inl e \<Rightarrow> Inl e
          | Inr u \<Rightarrow>
              if u_scheme u \<noteq> u_scheme b \<or> u_scheme u \<notin> set uses_relative then Inr url
              else if u_scheme u \<in> set uses_netloc \<and> u_netloc u \<noteq> [] then Inr (urlunparse u)
              else
                (let netloc = (if u_scheme u \<in> set uses_netloc then u_netloc b else u_netloc u)
                 in if u_path u = [] \<and> u_params u = [] then
                      Inr (urlunparse (u\<lparr>u_netloc := netloc, u_path := u_path b,
                                          u_params := u_params b,
                                          u_query := (if u_query u = [] then u_query b
                                                      else u_query u)\<rparr>))
                    else
                      Inr (urlunparse (u\<lparr>u_netloc := netloc,
                                          u_path := join_paths (u_path b) (u_path u)\<rparr>)))))"

text \<open>\<^verbatim>\<open>urldefrag(url)[0]\<close>.\<close>

definition urldefrag :: "host_checks \<Rightarrow> string \<Rightarrow> exn + string" where
  "urldefrag hc url =
     (if CHR ''#'' \<in> set url then
        (case urlparse hc url [] of
           Inl e \<Rightarrow> Inl e
         | Inr r \<Rightarrow> Inr (urlunparse (r\<lparr>u_fragment := []\<rparr>)))
      else Inr url)"

subsection \<open>The crawl boundary (lines 19 to 43)\<close>

definition SKIP_EXT :: "string list" where
  "SKIP_EXT = [''.css'', ''.js'', ''.png'', ''.jpg'', ''.jpeg'', ''.gif'', ''.svg'', ''.ico'',
               ''.woff'', ''.woff2'', ''.ttf'', ''.eot'',
               ''.zip'', ''.jar'', ''.war'',
               ''.pdf'']"

definition is_within_root :: "string \<Rightarrow> string \<Rightarrow> bool" where
  "is_within_root url root = py_startswith url root"

text \<open>
  \<^verbatim>\<open>should_skip_url\<close>: the loop over a set returns \<open>True\<close> as soon as one extension
  matches, so the order does not matter. A \<^verbatim>\<open>ValueError\<close> of \<^verbatim>\<open>urlparse\<close> passes through.
\<close>

definition should_skip_url :: "host_checks \<Rightarrow> string \<Rightarrow> exn + bool" where
  "should_skip_url hc url =
     (case urlparse hc url [] of
        Inl e \<Rightarrow> Inl e
      | Inr p \<Rightarrow> Inr (let path = py_lower (u_path p)
                      in list_ex (\<lambda>ext. py_endswith path ext) SKIP_EXT))"

subsection \<open>Link extraction (\<^verbatim>\<open>extract_links\<close>, lines 174 to 184)\<close>

text \<open>\<^verbatim>\<open>soup.find_all("a", href=True)\<close>: the \<^verbatim>\<open>a\<close> tags that have the attribute,
  with its value.\<close>

fun href_of :: "node \<Rightarrow> attr_value option" where
  "href_of (Tag nm attrs kids) = (if nm = ''a'' then map_of attrs ''href'' else None)"
| "href_of el = None"

definition anchors :: "node \<Rightarrow> attr_value list" where
  "anchors soup = List.map_filter href_of (descendants soup)"

text \<open>
  The loop over the anchors. The set \<^verbatim>\<open>links\<close> is a list without repetition, in the order
  of first insertion. \<^verbatim>\<open>.strip()\<close> on a list value raises \<^verbatim>\<open>AttributeError\<close>.
\<close>

definition set_add :: "string \<Rightarrow> string list \<Rightarrow> string list" where
  "set_add x links = (if x \<in> set links then links else links @ [x])"

fun extract_loop :: "host_checks \<Rightarrow> string \<Rightarrow> attr_value list \<Rightarrow> string list \<Rightarrow> exn + string list" where
  "extract_loop hc base_url [] links = Inr links"
| "extract_loop hc base_url (AttrList vs # others) links = Inl AttributeError"
| "extract_loop hc base_url (AttrStr v # others) links =
     (let href = py_strip v
      in if href = [] \<or> py_startswith href ''mailto:'' \<or> py_startswith href ''javascript:''
         then extract_loop hc base_url others links
         else case urljoin hc base_url href of
           Inl e \<Rightarrow> Inl e
         | Inr abs_url \<Rightarrow>
            (case urldefrag hc abs_url of
               Inl e \<Rightarrow> Inl e
             | Inr abs_url \<Rightarrow> extract_loop hc base_url others (set_add abs_url links)))"

definition extract_links :: "host_checks \<Rightarrow> node \<Rightarrow> string \<Rightarrow> exn + string list" where
  "extract_links hc soup base_url = extract_loop hc base_url (anchors soup) []"

subsection \<open>The world outside the program\<close>

text \<open>The fields of a \<^verbatim>\<open>requests.Response\<close> the program reads.\<close>

record response =
  status_code :: int
  body_text :: string

text \<open>
  What the program cannot decide itself:
  \<^item> \<open>env_checks\<close>: the two host checks of \<^verbatim>\<open>urlsplit\<close>;
  \<^item> \<open>env_get url timeout\<close>: the outcome of \<^verbatim>\<open>session.get\<close>, a response or an exception of
    the connection. The loop asks for every URL at most once, so a function of the URL loses
    nothing;
  \<^item> \<open>env_parse html\<close>: the document \<^verbatim>\<open>BeautifulSoup(html, "html.parser")\<close>;
  \<^item> \<open>env_write_ok path\<close>: whether creating the parent directories and writing the file
    succeed (otherwise \<^verbatim>\<open>OSError\<close>);
  \<^item> \<open>env_set_order\<close>: the order in which a \<^verbatim>\<open>for\<close> loop visits the members of a set.
\<close>

record env =
  env_checks :: host_checks
  env_get :: "string \<Rightarrow> int \<Rightarrow> exn + response"
  env_parse :: "string \<Rightarrow> node"
  env_write_ok :: "path \<Rightarrow> bool"
  env_set_order :: "string list \<Rightarrow> string list"

subsection \<open>Fetching (\<^verbatim>\<open>fetch\<close>, lines 186 to 189)\<close>

text \<open>
  \<^verbatim>\<open>Response.raise_for_status\<close> of the \<^verbatim>\<open>requests\<close> library raises \<^verbatim>\<open>HTTPError\<close> for
  the client errors 400 to 499 and the server errors 500 to 599, and returns for every other
  status code.
\<close>

definition raise_for_status :: "response \<Rightarrow> exn + unit" where
  "raise_for_status r =
     (if 400 \<le> status_code r \<and> status_code r < 600 then Inl (HTTPError (status_code r))
      else Inr ())"

definition fetch :: "env \<Rightarrow> string \<Rightarrow> int \<Rightarrow> exn + string" where
  "fetch world url timeout =
     (case env_get world url timeout of
        Inl e \<Rightarrow> Inl e
      | Inr r \<Rightarrow> (case raise_for_status r of
                    Inl e \<Rightarrow> Inl e
                  | Inr u \<Rightarrow> Inr (body_text r)))"

subsection \<open>The crawl loop (\<^verbatim>\<open>main\<close>, lines 201 to 250)\<close>

text \<open>
  The arguments of the command line. \<^verbatim>\<open>--delay\<close> only makes the loop sleep and is left
  out; \<^verbatim>\<open>--max-pages\<close> and \<^verbatim>\<open>--timeout\<close> are integers of any sign; the output directory is
  the resolved path.
\<close>

record config =
  cfg_start :: string
  cfg_root :: string
  cfg_outdir :: path
  cfg_max_pages :: int
  cfg_timeout :: int

text \<open>
  The variables of the loop (\<^verbatim>\<open>q\<close>, \<^verbatim>\<open>seen\<close>, \<^verbatim>\<open>saved\<close>), and three fields that record
  what the run did: the calls of \<^verbatim>\<open>fetch\<close>, each with the value of \<^verbatim>\<open>saved\<close> at the
  time of the call; the files written, each with the URL of its page, its path and its
  text; and the exception that ended \<^verbatim>\<open>main\<close>, if one did.
\<close>

record crawl_state =
  st_queue :: "string list"
  st_seen :: "string set"
  st_saved :: int
  st_fetched :: "(string \<times> int) list"
  st_written :: "(string \<times> path \<times> string) list"
  st_failure :: "exn option"

text \<open>
  Lines 246 to 248: the links are appended to the queue when they are not seen, within the
  root and not skipped; the three tests are made in this order and only as far as needed.
\<close>

fun enqueue :: "host_checks \<Rightarrow> string \<Rightarrow> string set \<Rightarrow> string list \<Rightarrow> string list \<Rightarrow> exn + string list" where
  "enqueue hc root_url seen_urls [] queue = Inr queue"
| "enqueue hc root_url seen_urls (link # links) queue =
     (if link \<notin> seen_urls \<and> is_within_root link root_url then
        (case should_skip_url hc link of
           Inl e \<Rightarrow> Inl e
         | Inr skip \<Rightarrow>
             enqueue hc root_url seen_urls links (if \<not> skip then queue @ [link] else queue))
      else enqueue hc root_url seen_urls links queue)"

text \<open>
  One pass through the body of the \<^verbatim>\<open>while\<close> loop (lines 218 to 248), for a state with a
  non-empty queue. An exception outside the \<^verbatim>\<open>try\<close> of lines 228 to 234 ends \<^verbatim>\<open>main\<close>:
  from \<^verbatim>\<open>should_skip_url\<close>, from \<^verbatim>\<open>url_to_outpath\<close>, from writing the file, from
  \<^verbatim>\<open>relative_to\<close> in the progress line, from \<^verbatim>\<open>extract_links\<close>.
\<close>

definition loop_body :: "config \<Rightarrow> env \<Rightarrow> crawl_state \<Rightarrow> crawl_state" where
  "loop_body cfg world s0 =
     (case st_queue s0 of
        [] \<Rightarrow> s0
      | url # rest \<Rightarrow>
         (let s = s0\<lparr>st_queue := rest\<rparr>
          in if url \<in> st_seen s then s
             else (let s = s\<lparr>st_seen := insert url (st_seen s)\<rparr>
                   in if \<not> is_within_root url (cfg_root cfg) then s
                      else case should_skip_url (env_checks world) url of
                        Inl e \<Rightarrow> s\<lparr>st_failure := Some e\<rparr>
                      | Inr True \<Rightarrow> s
                      | Inr False \<Rightarrow>
                         (let s = s\<lparr>st_fetched := st_fetched s @ [(url, st_saved s)]\<rparr>
                          in case fetch world url (cfg_timeout cfg) of
                            Inl e \<Rightarrow> s
                          | Inr html \<Rightarrow>
                             (let text = html_to_text (env_parse world html)
                              in case url_to_outpath url (cfg_root cfg) (cfg_outdir cfg) of
                                Inl e \<Rightarrow> s\<lparr>st_failure := Some e\<rparr>
                              | Inr outpath \<Rightarrow>
                                 if \<not> env_write_ok world outpath then s\<lparr>st_failure := Some OSError\<rparr>
                                 else
                                  (let s = s\<lparr>st_written := st_written s @ [(url, outpath, text)],
                                              st_saved := st_saved s + 1\<rparr>
                                   in if \<not> relative_to_ok outpath (cfg_outdir cfg)
                                      then s\<lparr>st_failure := Some ValueError\<rparr>
                                      else case extract_links (env_checks world)
                                                  (env_parse world html) url of
                                        Inl e \<Rightarrow> s\<lparr>st_failure := Some e\<rparr>
                                      | Inr links \<Rightarrow>
                                         (case enqueue (env_checks world) (cfg_root cfg) (st_seen s)
                                                 (env_set_order world links) (st_queue s) of
                                            Inl e \<Rightarrow> s\<lparr>st_failure := Some e\<rparr>
                                          | Inr queue \<Rightarrow> s\<lparr>st_queue := queue\<rparr>)))))))"

text \<open>The condition of the \<^verbatim>\<open>while\<close> loop (line 217), for a run that no exception has ended.\<close>

definition loop_cond :: "config \<Rightarrow> crawl_state \<Rightarrow> bool" where
  "loop_cond cfg s = (st_queue s \<noteq> [] \<and> st_saved s < cfg_max_pages cfg \<and> st_failure s = None)"

text \<open>
  The loop. It ends: a pass ends the run with an exception, or saves a page while fewer
  than the maximum are saved, or leaves the count and shortens the queue.
\<close>

function crawl_loop :: "config \<Rightarrow> env \<Rightarrow> crawl_state \<Rightarrow> crawl_state" where
  "crawl_loop cfg world s =
     (if loop_cond cfg s then crawl_loop cfg world (loop_body cfg world s) else s)"
  by pat_completeness auto
termination
proof (relation "measures [\<lambda>(cfg, world, s). if st_failure s = None then 1 else 0,
                           \<lambda>(cfg, world, s). nat (cfg_max_pages cfg - st_saved s),
                           \<lambda>(cfg, world, s). length (st_queue s)]")
  show "wf (measures [\<lambda>(cfg, world, s). if st_failure s = None then 1 else 0,
                           \<lambda>(cfg, world, s). nat (cfg_max_pages cfg - st_saved s),
                           \<lambda>(cfg, world, s). length (st_queue s)])"
    by simp
next
  fix cfg :: config and world :: env and s :: crawl_state
  assume c: "loop_cond cfg s"
  let ?s' = "loop_body cfg world s"
  from c obtain url rest where q: "st_queue s = url # rest"
    by (cases "st_queue s") (auto simp: loop_cond_def)
  have "st_failure ?s' \<noteq> None
        \<or> (st_failure ?s' = None \<and> st_saved ?s' = st_saved s + 1)
        \<or> (st_failure ?s' = None \<and> st_saved ?s' = st_saved s \<and> st_queue ?s' = rest)"
    using c q unfolding loop_body_def loop_cond_def Let_def
    by (simp split: sum.split bool.split)
  with c q show "((cfg, world, ?s'), (cfg, world, s))
        \<in> measures [\<lambda>(cfg, world, s). if st_failure s = None then 1 else 0,
                     \<lambda>(cfg, world, s). nat (cfg_max_pages cfg - st_saved s),
                     \<lambda>(cfg, world, s). length (st_queue s)]"
    by (auto simp: loop_cond_def)
qed

declare crawl_loop.simps [simp del]

text \<open>\<^verbatim>\<open>main\<close> from line 206 on: the loop from the initial state.\<close>

definition initial_state :: "config \<Rightarrow> crawl_state" where
  "initial_state cfg =
     \<lparr>st_queue = [cfg_start cfg], st_seen = {}, st_saved = 0,
      st_fetched = [], st_written = [], st_failure = None\<rparr>"

definition main :: "config \<Rightarrow> env \<Rightarrow> crawl_state" where
  "main cfg world = crawl_loop cfg world (initial_state cfg)"

text \<open>The states the loop can be in at the test of its condition.\<close>

inductive reachable :: "config \<Rightarrow> env \<Rightarrow> crawl_state \<Rightarrow> bool" for cfg world where
  initial: "reachable cfg world (initial_state cfg)"
| step: "reachable cfg world s \<Longrightarrow> loop_cond cfg s \<Longrightarrow> reachable cfg world (loop_body cfg world s)"

subsection \<open>Predicates used in the proofs about \<^const>\<open>normalize_str\<close>\<close>

text \<open>No three newlines in a row.\<close>

fun no_nl3 :: "string \<Rightarrow> bool" where
  "no_nl3 (a # b # c # s) = (\<not> (a = NL \<and> b = NL \<and> c = NL) \<and> no_nl3 (b # c # s))"
| "no_nl3 s = True"

text \<open>Conditions on two neighbours: not two spaces; no space next to a newline.\<close>

definition no_sp_sp :: "char \<Rightarrow> char \<Rightarrow> bool" where
  "no_sp_sp a b = (\<not> (a = SP \<and> b = SP))"

definition no_sp_nl :: "char \<Rightarrow> char \<Rightarrow> bool" where
  "no_sp_nl a b = (\<not> (a = SP \<and> b = NL) \<and> \<not> (a = NL \<and> b = SP))"

text \<open>The strings on which the four rewriting steps of \<^const>\<open>normalize_str\<close> change nothing.\<close>

definition tidy :: "string \<Rightarrow> bool" where
  "tidy s = (CR \<notin> set s \<and> TAB \<notin> set s \<and> successively no_sp_sp s
             \<and> successively no_sp_nl s \<and> no_nl3 s)"

text \<open>The number of newlines a string starts with.\<close>

definition nlrun :: "string \<Rightarrow> nat" where
  "nlrun s = length (takeWhile (\<lambda>x. x = NL) s)"

text \<open>\<^const>\<open>normalize_str\<close> before its last statement.\<close>

definition pipeline :: "string \<Rightarrow> string" where
  "pipeline s = sub_nl_runs (sub_nl_trim (sub_hspace (py_replace [CR] [NL] (py_replace [CR, NL] [NL] s))))"

subsection \<open>Example documents\<close>

text \<open>The parser's value for the empty string: a document without children.\<close>

definition empty_document :: node where
  "empty_document = Tag ''[document]'' [] []"


text \<open>The parser's value for \<^verbatim>\<open><h2>Title</h2><p>Body &amp; text</p>\<close>.\<close>

definition example_page :: node where
  "example_page = Tag ''[document]'' []
     [Tag ''h2'' [] [Text ''Title''], Tag ''p'' [] [Text ''Body & text'']]"





subsection \<open>Predicates and names used in the theorems about paths\<close>

text \<open>A component as \<^const>\<open>parse_parts\<close> produces it: not empty, not a dot, without slash.\<close>

definition wf_component :: "string \<Rightarrow> bool" where
  "wf_component x = (x \<noteq> [] \<and> x \<noteq> ''.'' \<and> CHR ''/'' \<notin> set x)"

text \<open>
  A path as \<^const>\<open>parse_parts\<close> produces it: a relative path is a list of such components;
  a path with a root has the root as its first part.
\<close>

definition wf_path :: "path \<Rightarrow> bool" where
  "wf_path p =
     (if path_root p = [] then list_all wf_component (path_parts p)
      else (path_root p = ''/'' \<or> path_root p = ''//'')
           \<and> path_parts p \<noteq> [] \<and> hd (path_parts p) = path_root p
           \<and> list_all wf_component (tl (path_parts p)))"

text \<open>
  The name of the text file in the words of the specification: a final extension \<^verbatim>\<open>.html\<close>
  or \<^verbatim>\<open>.htm\<close> in any case is replaced by \<^verbatim>\<open>.txt\<close>; to any other name \<^verbatim>\<open>.txt\<close> is
  appended.
\<close>

definition new_name :: "path \<Rightarrow> string" where
  "new_name p =
     (if py_lower (path_suffix p) \<in> set [''.html'', ''.htm''] then path_stem p @ ''.txt''
      else path_name p @ ''.txt'')"

text \<open>The root and the (resolved) output directory of the examples.\<close>

definition example_root :: string where
  "example_root = ''https://site/root/''"

definition example_outdir :: path where
  "example_outdir = Path ''/'' [''/'', ''out'']"

text \<open>
  Where a path leads. The output directory is \<^verbatim>\<open>Path(args.outdir).resolve()\<close>: absolute and
  free of symbolic links and of \<^verbatim>\<open>..\<close>, so below it a part \<^verbatim>\<open>..\<close> leads to the parent
  of the part before it, and \<^verbatim>\<open>..\<close> at the root stays at the root.
  \<open>normpath_parts\<close> resolves the parts after the root in this way, and a path is inside a
  directory when, resolved so, it is strictly below it.
\<close>

definition normpath_parts :: "string list \<Rightarrow> string list" where
  "normpath_parts ps = foldl (\<lambda>acc c. if c = ''..'' then butlast acc else acc @ [c]) [] ps"

definition inside :: "path \<Rightarrow> path \<Rightarrow> bool" where
  "inside outdir p =
     (path_root p = path_root outdir
      \<and> length (tl (path_parts outdir)) < length (normpath_parts (tl (path_parts p)))
      \<and> take (length (tl (path_parts outdir))) (normpath_parts (tl (path_parts p)))
          = tl (path_parts outdir))"

subsection \<open>Predicates and examples used in the theorems about the crawl\<close>

text \<open>A URL passes the two checks of the loop: it starts with the root and is not skipped.\<close>

definition allowed :: "config \<Rightarrow> env \<Rightarrow> string \<Rightarrow> bool" where
  "allowed cfg world url =
     (is_within_root url (cfg_root cfg) \<and> should_skip_url (env_checks world) url = Inr False)"

text \<open>
  What every pass of the loop keeps: the URLs fetched passed the checks and were fetched
  while fewer pages than the maximum were saved; the files written belong to URLs that were
  fetched, at the paths \<^const>\<open>url_to_outpath\<close> gives; every URL in the queue is the start URL
  or passed the checks; the count of saved pages is the number of files written and does not
  exceed the maximum (or zero, for a negative maximum).
\<close>

definition crawl_inv :: "config \<Rightarrow> env \<Rightarrow> crawl_state \<Rightarrow> bool" where
  "crawl_inv cfg world s =
     ((\<forall>(u, n) \<in> set (st_fetched s). allowed cfg world u \<and> n < cfg_max_pages cfg)
      \<and> (\<forall>(u, p, t) \<in> set (st_written s).
            allowed cfg world u \<and> u \<in> fst ` set (st_fetched s)
            \<and> url_to_outpath u (cfg_root cfg) (cfg_outdir cfg) = Inr p)
      \<and> (\<forall>u \<in> set (st_queue s). u = cfg_start cfg \<or> allowed cfg world u)
      \<and> st_saved s = int (length (st_written s))
      \<and> st_saved s \<le> max 0 (cfg_max_pages cfg))"

text \<open>
  A small site. Both host checks refuse (no URL of the site needs them). The page of
  \<^verbatim>\<open>index.html\<close> links to a page that answers 404, to an image, to another host, to a page
  without links and to a page the site does not serve; the page of the root links to the
  root with a query and to a page.
\<close>

definition strict_checks :: host_checks where
  "strict_checks = \<lparr>bracketed_host_ok = (\<lambda>h. False), nfkc_ok = (\<lambda>h. False)\<rparr>"

definition site_links :: "string list \<Rightarrow> node" where
  "site_links hrefs = Tag ''[document]'' []
     [Tag ''body'' [] (map (\<lambda>h. Tag ''a'' [(''href'', AttrStr h)] []) hrefs)]"

definition site_world :: env where
  "site_world =
     \<lparr>env_checks = strict_checks,
      env_get = (\<lambda>url timeout.
         if url = ''https://site/root/index.html'' then Inr \<lparr>status_code = 200, body_text = ''index''\<rparr>
         else if url = ''https://site/root/a.html'' then Inr \<lparr>status_code = 404, body_text = ''gone''\<rparr>
         else if url = ''https://site/root/'' then Inr \<lparr>status_code = 200, body_text = ''top''\<rparr>
         else if url = ''https://site/root/?x=1'' then Inr \<lparr>status_code = 200, body_text = ''leaf''\<rparr>
         else if url = ''https://site/root/b.html'' then Inr \<lparr>status_code = 200, body_text = ''leaf''\<rparr>
         else Inl ConnectionFailed),
      env_parse = (\<lambda>html.
         if html = ''index'' then
           site_links [''a.html'', ''logo.png'', ''https://other.org/x.html'', ''b.html#top'', ''c.html'']
         else if html = ''top'' then site_links [''?x=1'', ''b.html'']
         else site_links []),
      env_write_ok = (\<lambda>p. True),
      env_set_order = (\<lambda>links. links)\<rparr>"

definition site_config :: config where
  "site_config = \<lparr>cfg_start = ''https://site/root/index.html'', cfg_root = ''https://site/root/'',
                  cfg_outdir = Path ''/'' [''/'', ''out''], cfg_max_pages = 2, cfg_timeout = 30\<rparr>"

text \<open>A server that answers every request with status 300 (multiple choices) and a body.\<close>

definition redirect_world :: env where
  "redirect_world = site_world\<lparr>env_get := (\<lambda>url timeout.
      Inr \<lparr>status_code = 300, body_text = ''choices''\<rparr>)\<rparr>"

text \<open>
  A run that starts at \<^verbatim>\<open>root + "../escape.html"\<close> on a server that answers every request
  with status 200 and a page without links.
\<close>

definition escape_world :: env where
  "escape_world = site_world\<lparr>env_get := (\<lambda>url timeout.
      Inr \<lparr>status_code = 200, body_text = ''leaf''\<rparr>)\<rparr>"

definition escape_config :: config where
  "escape_config = site_config\<lparr>cfg_start := ''https://site/root/../escape.html''\<rparr>"

subsection \<open>Link extraction in the words of the specification\<close>

text \<open>
  What one hyperlink contributes: nothing when its target is empty after trimming or starts
  with \<^verbatim>\<open>mailto:\<close> or \<^verbatim>\<open>javascript:\<close>; otherwise the target resolved against the URL of
  the page, without its fragment. Resolving can raise.
\<close>

definition resolve_href :: "host_checks \<Rightarrow> string \<Rightarrow> attr_value \<Rightarrow> exn + string option" where
  "resolve_href hc base_url a =
     (case a of
        AttrList vs \<Rightarrow> Inl AttributeError
      | AttrStr v \<Rightarrow>
          (let href = py_strip v
           in if href = [] \<or> py_startswith href ''mailto:'' \<or> py_startswith href ''javascript:''
              then Inr None
              else case urljoin hc base_url href of
                Inl e \<Rightarrow> Inl e
              | Inr abs_url \<Rightarrow> (case urldefrag hc abs_url of
                                  Inl e \<Rightarrow> Inl e
                                | Inr d \<Rightarrow> Inr (Some d))))"

text \<open>
  The page URL of the example, and a page with two links that differ in their fragment only, a
  mail link and a link with a blank target.
\<close>

definition example_base :: string where
  "example_base = ''https://site/root/sub/page.html''"

definition example_anchors :: node where
  "example_anchors = site_links [''../x/y.html#frag'', '' ../x/y.html#other '', ''mailto:a@b'', ''  '']"

section \<open>Theorems\<close>

subsection \<open>The steps of text normalisation\<close>

lemma replace_absent: "c \<in> set old \<Longrightarrow> c \<notin> set s \<Longrightarrow> py_replace old new s = s"
proof (induction old new s rule: py_replace.induct)
  case (1 old new s)
  have ne: "old \<noteq> []" using 1 by auto
  have ns: "\<not> py_startswith s old"
  proof
    assume "py_startswith s old"
    then have "set old \<subseteq> set s"
      unfolding py_startswith_def by (metis set_take_subset)
    with 1 show False by auto
  qed
  show ?case
  proof (cases s)
    case Nil
    with ne ns show ?thesis by (subst py_replace.simps) simp
  next
    case (Cons a t)
    with 1 ne ns have "py_replace old new t = t" by auto
    with Cons ne ns show ?thesis by (subst py_replace.simps) simp
  qed
qed

lemma replace_single_removes: "c \<notin> set new \<Longrightarrow> c \<notin> set (py_replace [c] new s)"
proof (induction "[c]" new s rule: py_replace.induct)
  case (1 new s)
  show ?case
  proof (cases s)
    case Nil
    then show ?thesis by (subst py_replace.simps) (simp add: py_startswith_def)
  next
    case (Cons a t)
    show ?thesis
    proof (cases "a = c")
      case True
      with Cons have sw: "py_startswith s [c]" by (simp add: py_startswith_def)
      with 1 Cons have "c \<notin> set (py_replace [c] new t)" by simp
      with sw 1 Cons show ?thesis by (subst py_replace.simps) simp
    next
      case False
      with Cons have sw: "\<not> py_startswith s [c]" by (simp add: py_startswith_def)
      with 1 Cons have "c \<notin> set (py_replace [c] new t)" by simp
      with sw False Cons show ?thesis by (subst py_replace.simps) simp
    qed
  qed
qed

lemma sub_hspace_set: "set (sub_hspace s) \<subseteq> insert SP (set s - {TAB})"
proof (induction s rule: sub_hspace.induct)
  case 1 show ?case by simp
next
  case (2 c s)
  have "set (dropWhile (\<lambda>x. x = SP \<or> x = TAB) s) \<subseteq> set s"
    by (auto dest: set_dropWhileD)
  with 2 show ?case by auto
qed

lemma sub_hspace_Nil [simp]: "sub_hspace s = [] \<longleftrightarrow> s = []"
  by (cases s) auto

lemma sub_hspace_hd: "s \<noteq> [] \<Longrightarrow> hd (sub_hspace s) = (if hd s = SP \<or> hd s = TAB then SP else hd s)"
  by (cases s) auto

lemma sub_hspace_no_sp_sp: "successively no_sp_sp (sub_hspace s)"
proof (induction s rule: sub_hspace.induct)
  case 1 show ?case by simp
next
  case (2 c s)
  let ?t = "dropWhile (\<lambda>x. x = SP \<or> x = TAB) s"
  show ?case
  proof (cases "c = SP \<or> c = TAB")
    case True
    have "?t = [] \<or> \<not> (hd ?t = SP \<or> hd ?t = TAB)"
      using hd_dropWhile [of "\<lambda>x. x = SP \<or> x = TAB" s] by auto
    then have "?t = [] \<or> hd (sub_hspace ?t) \<noteq> SP"
      using sub_hspace_hd [of ?t] by (cases "?t = []") (simp_all del: dropWhile_eq_Nil_conv)
    moreover have "successively no_sp_sp (sub_hspace ?t)"
      using True "2.IH"(1) by simp
    ultimately show ?thesis
      using True by (simp add: successively_Cons no_sp_sp_def)
  next
    case False
    with 2 show ?thesis
      by (auto simp: successively_Cons no_sp_sp_def)
  qed
qed

lemma sub_hspace_id: "TAB \<notin> set s \<Longrightarrow> successively no_sp_sp s \<Longrightarrow> sub_hspace s = s"
proof (induction s rule: sub_hspace.induct)
  case 1 show ?case by simp
next
  case (2 c s)
  show ?case
  proof (cases "c = SP")
    case True
    with 2(3,4) have "s = [] \<or> (hd s \<noteq> SP \<and> hd s \<noteq> TAB)"
      by (cases s) (auto simp: no_sp_sp_def)
    then have d: "dropWhile (\<lambda>x. x = SP \<or> x = TAB) s = s"
      by (cases s) auto
    from 2(3,4) have "TAB \<notin> set s" "successively no_sp_sp s"
      by (auto simp: successively_Cons)
    with 2(1) True d show ?thesis by simp
  next
    case False
    from 2(3,4) have "TAB \<notin> set s" "successively no_sp_sp s" "c \<noteq> TAB"
      by (auto simp: successively_Cons)
    with 2(2) False show ?thesis by simp
  qed
qed

lemma successively_tl: "successively P (x # xs) \<Longrightarrow> successively P xs"
  by (cases xs) simp_all

lemma successively_dropWhile: "successively P s \<Longrightarrow> successively P (dropWhile Q s)"
  by (induction s) (auto simp: successively_Cons)

lemma dropWhile_hd_not: "dropWhile P s = [] \<or> \<not> P (hd (dropWhile P s))"
  using hd_dropWhile [of P s] by auto

lemma sub_nl_trim_cases:
  obtains (nl) "c = NL" "sub_nl_trim (c # s) = NL # sub_nl_trim (dropWhile (\<lambda>x. x = SP) s)"
  | (spnl) r where "c = SP" "dropWhile (\<lambda>x. x = SP) s = NL # r"
      "sub_nl_trim (c # s) = NL # sub_nl_trim (dropWhile (\<lambda>x. x = SP) r)"
  | (keep) "c \<noteq> NL" "\<forall>r. dropWhile (\<lambda>x. x = SP) (c # s) \<noteq> NL # r"
      "sub_nl_trim (c # s) = c # sub_nl_trim s"
proof (cases "c = NL")
  case True
  then show ?thesis using nl by simp
next
  case nNL: False
  show ?thesis
  proof (cases "c = SP")
    case True
    show ?thesis
    proof (cases "dropWhile (\<lambda>x. x = SP) s")
      case Nil
      then have "dropWhile (\<lambda>x. x = SP) (c # s) = []" using True by simp
      then have "\<forall>r. dropWhile (\<lambda>x. x = SP) (c # s) \<noteq> NL # r" by simp
      moreover have "sub_nl_trim (c # s) = c # sub_nl_trim s"
        using Nil True nNL by (simp del: dropWhile_eq_Nil_conv)
      ultimately show ?thesis using keep nNL by blast
    next
      case (Cons d r)
      show ?thesis
      proof (cases "d = NL")
        case True
        with Cons \<open>c = SP\<close> show ?thesis using spnl [of r] by simp
      next
        case False
        with Cons \<open>c = SP\<close> nNL show ?thesis using keep by simp
      qed
    qed
  next
    case False
    with nNL show ?thesis using keep by simp
  qed
qed

lemma dropWhile_Cons_length: "dropWhile P s = d # r \<Longrightarrow> length r < length s"
  using length_dropWhile_le [of P s] by simp

lemma sub_nl_trim_Nil [simp]: "sub_nl_trim s = [] \<longleftrightarrow> s = []"
proof (cases s)
  case Nil then show ?thesis by simp
next
  case (Cons c t)
  show ?thesis by (cases c t rule: sub_nl_trim_cases) (simp_all only: Cons list.simps)
qed

lemma sub_nl_trim_hd: "s \<noteq> [] \<Longrightarrow> hd s \<noteq> SP \<Longrightarrow> hd (sub_nl_trim s) = hd s"
proof (cases s)
  case Nil then show "s \<noteq> [] \<Longrightarrow> ?thesis" by simp
next
  case (Cons c t)
  assume "hd s \<noteq> SP"
  with Cons have "c \<noteq> SP" by simp
  then show ?thesis using Cons by simp
qed

lemma sub_nl_trim_hd_NL:
  assumes "s \<noteq> []" "hd (sub_nl_trim s) = NL"
  shows "\<exists>r. dropWhile (\<lambda>x. x = SP) s = NL # r"
proof -
  from assms(1) obtain c t where s: "s = c # t" by (cases s) auto
  show ?thesis
  proof (cases c t rule: sub_nl_trim_cases)
    case nl
    then show ?thesis using s by simp
  next
    case (spnl r)
    then show ?thesis using s by simp
  next
    case keep
    with assms(2) s have "c = NL" by simp
    with keep show ?thesis by simp
  qed
qed

lemma sub_nl_trim_set: "set (sub_nl_trim s) \<subseteq> set s"
proof (induction "length s" arbitrary: s rule: less_induct)
  case less
  show ?case
  proof (cases s)
    case Nil then show ?thesis by simp
  next
    case (Cons c t)
    have dw: "set (dropWhile (\<lambda>x. x = SP) u) \<subseteq> set u" for u :: string
      by (auto dest: set_dropWhileD)
    show ?thesis
    proof (cases c t rule: sub_nl_trim_cases)
      case nl
      have "length (dropWhile (\<lambda>x. x = SP) t) < length s"
        using Cons length_dropWhile_le [of "\<lambda>x. x = SP" t] by simp
      then have "set (sub_nl_trim (dropWhile (\<lambda>x. x = SP) t)) \<subseteq> set (dropWhile (\<lambda>x. x = SP) t)"
        by (rule less.hyps)
      with dw [of t] nl Cons show ?thesis by auto
    next
      case (spnl r)
      have "length (dropWhile (\<lambda>x. x = SP) r) < length s"
        using Cons dropWhile_Cons_length [OF spnl(2)] length_dropWhile_le [of "\<lambda>x. x = SP" r] by simp
      then have "set (sub_nl_trim (dropWhile (\<lambda>x. x = SP) r)) \<subseteq> set (dropWhile (\<lambda>x. x = SP) r)"
        by (rule less.hyps)
      moreover have "set (NL # r) \<subseteq> set t"
        using dw [of t] spnl(2) by simp
      ultimately show ?thesis using dw [of r] spnl(3) Cons by auto
    next
      case keep
      have "set (sub_nl_trim t) \<subseteq> set t" using less.hyps [of t] Cons by simp
      with keep Cons show ?thesis by auto
    qed
  qed
qed

lemma sub_nl_trim_no_sp_sp: "successively no_sp_sp s \<Longrightarrow> successively no_sp_sp (sub_nl_trim s)"
proof (induction "length s" arbitrary: s rule: less_induct)
  case less
  show ?case
  proof (cases s)
    case Nil
    then show ?thesis by simp
  next
    case (Cons c t)
    from less.prems Cons have st: "successively no_sp_sp t"
      by (auto dest: successively_tl)
    show ?thesis
    proof (cases c t rule: sub_nl_trim_cases)
      case nl
      have "successively no_sp_sp (dropWhile (\<lambda>x. x = SP) t)"
        using st by (rule successively_dropWhile)
      moreover have "length (dropWhile (\<lambda>x. x = SP) t) < length s"
        using Cons length_dropWhile_le [of "\<lambda>x. x = SP" t] by simp
      ultimately have "successively no_sp_sp (sub_nl_trim (dropWhile (\<lambda>x. x = SP) t))"
        using less.hyps by blast
      with nl Cons show ?thesis by (simp add: successively_Cons no_sp_sp_def)
    next
      case (spnl r)
      have "successively no_sp_sp (dropWhile (\<lambda>x. x = SP) t)"
        using st by (rule successively_dropWhile)
      with spnl have "successively no_sp_sp r" by (auto dest: successively_tl)
      then have "successively no_sp_sp (dropWhile (\<lambda>x. x = SP) r)"
        by (rule successively_dropWhile)
      moreover have "length (dropWhile (\<lambda>x. x = SP) r) < length s"
        using Cons dropWhile_Cons_length [OF spnl(2)] length_dropWhile_le [of "\<lambda>x. x = SP" r] by simp
      ultimately have "successively no_sp_sp (sub_nl_trim (dropWhile (\<lambda>x. x = SP) r))"
        using less.hyps by blast
      with spnl Cons show ?thesis by (simp add: successively_Cons no_sp_sp_def)
    next
      case keep
      have ih: "successively no_sp_sp (sub_nl_trim t)"
        using less.hyps [of t] st Cons by simp
      have "t = [] \<or> no_sp_sp c (hd t)"
        using less.prems Cons by (auto simp: successively_Cons)
      then have "t = [] \<or> no_sp_sp c (hd (sub_nl_trim t))"
      proof
        assume "t = []" then show ?thesis by simp
      next
        assume a: "no_sp_sp c (hd t)"
        show ?thesis
        proof (cases "c = SP")
          case True
          with a have "hd t \<noteq> SP" by (simp add: no_sp_sp_def)
          then show ?thesis using a sub_nl_trim_hd [of t] by (cases "t = []") simp_all
        next
          case False
          then show ?thesis by (simp add: no_sp_sp_def)
        qed
      qed
      with keep ih Cons show ?thesis by (simp add: successively_Cons)
    qed
  qed
qed

lemma sub_nl_trim_no_sp_nl: "successively no_sp_nl (sub_nl_trim s)"
proof (induction "length s" arbitrary: s rule: less_induct)
  case less
  show ?case
  proof (cases s)
    case Nil
    then show ?thesis by simp
  next
    case (Cons c t)
    have after: "successively no_sp_nl (NL # sub_nl_trim (dropWhile (\<lambda>x. x = SP) u))"
      if "length u < length s" for u
    proof -
      let ?d = "dropWhile (\<lambda>x. x = SP) u"
      have "length ?d < length s"
        using that length_dropWhile_le [of "\<lambda>x. x = SP" u] by simp
      then have ih: "successively no_sp_nl (sub_nl_trim ?d)" by (rule less.hyps)
      show ?thesis
      proof (cases "?d = []")
        case True
        then show ?thesis by (simp del: dropWhile_eq_Nil_conv)
      next
        case False
        then have "hd ?d \<noteq> SP" using dropWhile_hd_not [of "\<lambda>x. x = SP" u] by blast
        then have "hd (sub_nl_trim ?d) \<noteq> SP" using False sub_nl_trim_hd [of ?d] by simp
        with ih show ?thesis by (simp add: successively_Cons no_sp_nl_def)
      qed
    qed
    show ?thesis
    proof (cases c t rule: sub_nl_trim_cases)
      case nl
      with after [of t] Cons show ?thesis by simp
    next
      case (spnl r)
      have "length r < length s" using Cons dropWhile_Cons_length [OF spnl(2)] by simp
      with after [of r] spnl Cons show ?thesis by simp
    next
      case keep
      have ih: "successively no_sp_nl (sub_nl_trim t)"
        using less.hyps [of t] Cons by simp
      have "t = [] \<or> no_sp_nl c (hd (sub_nl_trim t))"
      proof (cases "t = []")
        case True then show ?thesis by simp
      next
        case False
        have a: "hd (sub_nl_trim t) \<noteq> NL" if "c = SP"
        proof
          assume "hd (sub_nl_trim t) = NL"
          then obtain r where "dropWhile (\<lambda>x. x = SP) t = NL # r"
            using sub_nl_trim_hd_NL [OF False] by blast
          with that have "dropWhile (\<lambda>x. x = SP) (c # t) = NL # r" by simp
          with keep(2) show False by blast
        qed
        have b: "hd (sub_nl_trim t) \<noteq> SP" if "c = NL"
          using that keep(1) by simp
        from a b show ?thesis by (auto simp: no_sp_nl_def)
      qed
      with keep ih Cons show ?thesis by (simp add: successively_Cons)
    qed
  qed
qed

lemma no_sp_nl_dropWhile:
  "successively no_sp_nl s \<Longrightarrow> dropWhile (\<lambda>x. x = SP) s = NL # r \<Longrightarrow> s = NL # r"
proof (induction s)
  case Nil then show ?case by simp
next
  case (Cons a s)
  show ?case
  proof (cases "a = SP")
    case True
    with Cons.prems have d: "dropWhile (\<lambda>x. x = SP) s = NL # r" by simp
    from Cons.prems have "successively no_sp_nl s" by (auto dest: successively_tl)
    with Cons.IH d have "s = NL # r" by simp
    with Cons.prems True show ?thesis by (simp add: no_sp_nl_def)
  next
    case False
    with Cons.prems show ?thesis by simp
  qed
qed

lemma sub_nl_trim_id: "successively no_sp_nl s \<Longrightarrow> sub_nl_trim s = s"
proof (induction s)
  case Nil then show ?case by simp
next
  case (Cons c t)
  from Cons.prems have st: "successively no_sp_nl t" by (auto dest: successively_tl)
  with Cons.IH have ih: "sub_nl_trim t = t" by simp
  show ?case
  proof (cases c t rule: sub_nl_trim_cases)
    case nl
    with Cons.prems have "t = [] \<or> hd t \<noteq> SP"
      by (cases t) (auto simp: no_sp_nl_def)
    then have "dropWhile (\<lambda>x. x = SP) t = t" by (cases t) auto
    with nl ih show ?thesis by simp
  next
    case (spnl r)
    with st have "t = NL # r" by (simp add: no_sp_nl_dropWhile)
    with spnl(1) Cons.prems show ?thesis by (simp add: no_sp_nl_def)
  next
    case keep
    with ih show ?thesis by simp
  qed
qed

lemma nlrun_simps [simp]:
  "nlrun [] = 0" "nlrun (c # s) = (if c = NL then Suc (nlrun s) else 0)"
  by (simp_all add: nlrun_def)

lemma nlrun_dropWhile [simp]: "nlrun (dropWhile (\<lambda>x. x = NL) s) = 0"
  by (induction s) simp_all

lemma sub_nl_runs_cases:
  obtains (run) "c = NL" "2 \<le> nlrun s"
      "sub_nl_runs (c # s) = NL # NL # sub_nl_runs (dropWhile (\<lambda>x. x = NL) s)"
  | (keep) "c = NL \<longrightarrow> nlrun s < 2" "sub_nl_runs (c # s) = c # sub_nl_runs s"
proof (cases "c = NL \<and> 2 \<le> nlrun s")
  case True
  then have "sub_nl_runs (c # s) = NL # NL # sub_nl_runs (dropWhile (\<lambda>x. x = NL) s)"
    by (simp add: nlrun_def)
  with True show ?thesis using run by blast
next
  case False
  then have "sub_nl_runs (c # s) = c # sub_nl_runs s"
    by (auto simp: nlrun_def)
  with False show ?thesis using keep by auto
qed

lemma sub_nl_runs_Nil [simp]: "sub_nl_runs s = [] \<longleftrightarrow> s = []"
proof (cases s)
  case Nil then show ?thesis by simp
next
  case (Cons c t)
  show ?thesis by (cases c t rule: sub_nl_runs_cases) (simp_all only: Cons list.simps)
qed

lemma sub_nl_runs_hd: "s \<noteq> [] \<Longrightarrow> hd (sub_nl_runs s) = hd s"
proof (cases s)
  case Nil then show "s \<noteq> [] \<Longrightarrow> ?thesis" by simp
next
  case (Cons c t)
  show ?thesis by (cases c t rule: sub_nl_runs_cases) (simp_all add: Cons)
qed

lemma sub_nl_runs_set: "set (sub_nl_runs s) \<subseteq> set s"
proof (induction "length s" arbitrary: s rule: less_induct)
  case less
  show ?case
  proof (cases s)
    case Nil then show ?thesis by simp
  next
    case (Cons c t)
    show ?thesis
    proof (cases c t rule: sub_nl_runs_cases)
      case run
      let ?d = "dropWhile (\<lambda>x. x = NL) t"
      have "length ?d < length s"
        using Cons length_dropWhile_le [of "\<lambda>x. x = NL" t] by simp
      then have "set (sub_nl_runs ?d) \<subseteq> set ?d" by (rule less.hyps)
      moreover have "set ?d \<subseteq> set t" by (auto dest: set_dropWhileD)
      ultimately show ?thesis using run Cons by auto
    next
      case keep
      have "set (sub_nl_runs t) \<subseteq> set t" using less.hyps [of t] Cons by simp
      with keep Cons show ?thesis by auto
    qed
  qed
qed

lemma successively_after_run:
  "successively P (NL # t) \<Longrightarrow> dropWhile (\<lambda>x. x = NL) t \<noteq> [] \<Longrightarrow>
     P NL (hd (dropWhile (\<lambda>x. x = NL) t))"
proof (induction t)
  case Nil then show ?case by simp
next
  case (Cons a t)
  show ?case
  proof (cases "a = NL")
    case True
    with Cons.prems have "successively P (NL # t)" by (auto dest: successively_tl)
    with Cons True show ?thesis by simp
  next
    case False
    with Cons.prems show ?thesis by simp
  qed
qed

lemma sub_nl_runs_successively:
  "successively P s \<Longrightarrow> P NL NL \<Longrightarrow> successively P (sub_nl_runs s)"
proof (induction "length s" arbitrary: s rule: less_induct)
  case less
  show ?case
  proof (cases s)
    case Nil then show ?thesis by simp
  next
    case (Cons c t)
    from less.prems Cons have st: "successively P t" by (auto dest: successively_tl)
    show ?thesis
    proof (cases c t rule: sub_nl_runs_cases)
      case run
      let ?d = "dropWhile (\<lambda>x. x = NL) t"
      have "length ?d < length s"
        using Cons length_dropWhile_le [of "\<lambda>x. x = NL" t] by simp
      moreover have "successively P ?d" using st by (rule successively_dropWhile)
      ultimately have ih: "successively P (sub_nl_runs ?d)"
        using less.hyps less.prems(2) by blast
      have "?d = [] \<or> P NL (hd (sub_nl_runs ?d))"
      proof (cases "?d = []")
        case True then show ?thesis by blast
      next
        case False
        have "P NL (hd ?d)"
          using successively_after_run [of P t] less.prems(1) Cons run(1) False by blast
        with False show ?thesis by (simp add: sub_nl_runs_hd del: dropWhile_eq_Nil_conv)
      qed
      with ih run less.prems(2) Cons show ?thesis
        by (auto simp: successively_Cons simp del: dropWhile_eq_Nil_conv)
    next
      case keep
      have ih: "successively P (sub_nl_runs t)"
        using less.hyps [of t] st less.prems(2) Cons by simp
      have "t = [] \<or> P c (hd t)"
        using less.prems(1) Cons by (auto simp: successively_Cons)
      then have "t = [] \<or> P c (hd (sub_nl_runs t))"
        using sub_nl_runs_hd [of t] by (cases "t = []") simp_all
      with keep ih Cons show ?thesis by (auto simp: successively_Cons)
    qed
  qed
qed

lemma no_nl3_Cons: "no_nl3 (c # s) \<longleftrightarrow> no_nl3 s \<and> (c = NL \<longrightarrow> nlrun s < 2)"
proof (cases s)
  case Nil then show ?thesis by simp
next
  case (Cons b t)
  then show ?thesis by (cases t) auto
qed

lemma nlrun_sub_nl_runs: "nlrun (sub_nl_runs s) = min 2 (nlrun s)"
proof (induction "length s" arbitrary: s rule: less_induct)
  case less
  show ?case
  proof (cases s)
    case Nil then show ?thesis by simp
  next
    case (Cons c t)
    show ?thesis
    proof (cases c t rule: sub_nl_runs_cases)
      case run
      let ?d = "dropWhile (\<lambda>x. x = NL) t"
      have "length ?d < length s"
        using Cons length_dropWhile_le [of "\<lambda>x. x = NL" t] by simp
      then have "nlrun (sub_nl_runs ?d) = min 2 (nlrun ?d)" by (rule less.hyps)
      with run Cons show ?thesis by simp
    next
      case keep
      have "nlrun (sub_nl_runs t) = min 2 (nlrun t)" using less.hyps [of t] Cons by simp
      with keep Cons show ?thesis by auto
    qed
  qed
qed

lemma no_nl3_sub_nl_runs: "no_nl3 (sub_nl_runs s)"
proof (induction "length s" arbitrary: s rule: less_induct)
  case less
  show ?case
  proof (cases s)
    case Nil then show ?thesis by simp
  next
    case (Cons c t)
    show ?thesis
    proof (cases c t rule: sub_nl_runs_cases)
      case run
      let ?d = "dropWhile (\<lambda>x. x = NL) t"
      have "length ?d < length s"
        using Cons length_dropWhile_le [of "\<lambda>x. x = NL" t] by simp
      then have "no_nl3 (sub_nl_runs ?d)" by (rule less.hyps)
      moreover have "nlrun (sub_nl_runs ?d) = 0" by (simp add: nlrun_sub_nl_runs)
      ultimately show ?thesis using run Cons by (simp add: no_nl3_Cons)
    next
      case keep
      have "no_nl3 (sub_nl_runs t)" using less.hyps [of t] Cons by simp
      with keep Cons show ?thesis by (auto simp: no_nl3_Cons nlrun_sub_nl_runs)
    qed
  qed
qed

lemma sub_nl_runs_id: "no_nl3 s \<Longrightarrow> sub_nl_runs s = s"
proof (induction s)
  case Nil then show ?case by simp
next
  case (Cons c t)
  then have ih: "sub_nl_runs t = t" and r: "c = NL \<longrightarrow> nlrun t < 2"
    by (simp_all add: no_nl3_Cons)
  show ?case
  proof (cases c t rule: sub_nl_runs_cases)
    case run
    with r show ?thesis by simp
  next
    case keep
    with ih show ?thesis by simp
  qed
qed

lemma dropWhile_rev_nonempty: "dropWhile P (rev v) \<noteq> [] \<Longrightarrow> v \<noteq> []"
  by (cases v) auto

lemma dropWhile_hd_id: "x \<noteq> [] \<Longrightarrow> \<not> P (hd x) \<Longrightarrow> dropWhile P x = x"
  by (cases x) auto

lemma strip_infix: "\<exists>a b. u = a @ py_strip u @ b"
proof -
  let ?v = "dropWhile py_isspace u"
  have "u = takeWhile py_isspace u @ ?v" by simp
  moreover have "rev ?v = takeWhile py_isspace (rev ?v) @ dropWhile py_isspace (rev ?v)" by simp
  then have "?v = rev (dropWhile py_isspace (rev ?v)) @ rev (takeWhile py_isspace (rev ?v))"
    by (metis rev_append rev_rev_ident)
  ultimately have "u = takeWhile py_isspace u @ py_strip u @ rev (takeWhile py_isspace (rev ?v))"
    by (simp add: py_strip_def py_lstrip_def py_rstrip_def)
  then show ?thesis by blast
qed

lemma strip_ends: "py_strip u = [] \<or> (\<not> py_isspace (hd (py_strip u)) \<and> \<not> py_isspace (last (py_strip u)))"
proof (cases "py_strip u = []")
  case True then show ?thesis by blast
next
  case False
  let ?v = "dropWhile py_isspace u"
  let ?x = "dropWhile py_isspace (rev ?v)"
  have sx: "py_strip u = rev ?x" by (simp add: py_strip_def py_lstrip_def py_rstrip_def)
  with False have xne: "?x \<noteq> []" by (simp del: dropWhile_eq_Nil_conv)
  then have "\<not> py_isspace (hd ?x)" using dropWhile_hd_not [of py_isspace "rev ?v"] by blast
  then have l: "\<not> py_isspace (last (py_strip u))" using sx xne by (simp add: last_rev del: dropWhile_eq_Nil_conv)
  have vne: "?v \<noteq> []" using xne by (rule dropWhile_rev_nonempty)
  then have hv: "\<not> py_isspace (hd ?v)" using dropWhile_hd_not [of py_isspace u] by blast
  have "rev ?v = takeWhile py_isspace (rev ?v) @ ?x" by simp
  then have "last (rev ?v) = last ?x" using xne by (metis last_appendR)
  then have "hd ?v = last ?x" using vne by (simp add: last_rev del: dropWhile_eq_Nil_conv)
  then have "hd (py_strip u) = hd ?v" using sx xne by (simp add: hd_rev del: dropWhile_eq_Nil_conv)
  with hv l show ?thesis by simp
qed

lemma strip_fix:
  assumes "t = [] \<or> (\<not> py_isspace (hd t) \<and> \<not> py_isspace (last t))"
  shows "py_strip (t @ [NL]) = t"
proof (cases "t = []")
  case True
  then show ?thesis by (simp add: py_strip_def py_lstrip_def py_rstrip_def py_isspace_def)
next
  case False
  with assms have h: "\<not> py_isspace (hd t)" and l: "\<not> py_isspace (last t)" by auto
  from False h have "dropWhile py_isspace (t @ [NL]) = t @ [NL]" by (simp add: dropWhile_hd_id)
  moreover have "dropWhile py_isspace (NL # rev t) = rev t"
  proof -
    have "rev t \<noteq> []" "hd (rev t) = last t" using False by (simp_all add: hd_rev)
    with l have "dropWhile py_isspace (rev t) = rev t" by (simp add: dropWhile_hd_id)
    then show ?thesis by (simp add: py_isspace_def)
  qed
  ultimately show ?thesis by (simp add: py_strip_def py_lstrip_def py_rstrip_def)
qed

lemma no_nl3_appendD2: "no_nl3 (a @ b) \<Longrightarrow> no_nl3 b"
  by (induction a) (simp_all add: no_nl3_Cons)

lemma nlrun_append_le: "nlrun a \<le> nlrun (a @ b)"
  by (induction a) simp_all

lemma no_nl3_appendD1: "no_nl3 (a @ b) \<Longrightarrow> no_nl3 a"
proof (induction a)
  case Nil then show ?case by simp
next
  case (Cons c a)
  then show ?case using nlrun_append_le [of a b] by (auto simp: no_nl3_Cons)
qed

lemma nlrun_snoc: "\<exists>x\<in>set t. x \<noteq> NL \<Longrightarrow> nlrun (t @ [NL]) = nlrun t"
  by (induction t) auto

lemma no_nl3_snoc: "no_nl3 t \<Longrightarrow> t = [] \<or> last t \<noteq> NL \<Longrightarrow> no_nl3 (t @ [NL])"
proof (induction t)
  case Nil then show ?case by simp
next
  case (Cons c t)
  show ?case
  proof (cases "t = []")
    case True
    then show ?thesis by simp
  next
    case False
    with Cons.prems have l: "last t \<noteq> NL" by simp
    then have "\<exists>x\<in>set t. x \<noteq> NL" using False last_in_set by blast
    then have "nlrun (t @ [NL]) = nlrun t" by (rule nlrun_snoc)
    moreover have "no_nl3 (t @ [NL])" using Cons l by (simp add: no_nl3_Cons)
    ultimately show ?thesis using Cons.prems(1) by (simp add: no_nl3_Cons)
  qed
qed

lemma successively_infix: "successively P (a @ t @ b) \<Longrightarrow> successively P t"
  by (simp add: successively_append_iff)

lemma tidy_infix:
  assumes "tidy (a @ t @ b)"
  shows "tidy t"
proof -
  from assms have "CR \<notin> set t" "TAB \<notin> set t" by (simp_all add: tidy_def)
  moreover from assms have "successively no_sp_sp (a @ t @ b)" "successively no_sp_nl (a @ t @ b)"
    by (simp_all add: tidy_def)
  then have "successively no_sp_sp t" "successively no_sp_nl t"
    by (blast dest: successively_infix)+
  moreover from assms have "no_nl3 (a @ t @ b)" by (simp add: tidy_def)
  then have "no_nl3 t" using no_nl3_appendD1 no_nl3_appendD2 by blast
  ultimately show ?thesis by (simp add: tidy_def)
qed

lemma tidy_snoc:
  assumes "tidy t" "t = [] \<or> \<not> py_isspace (last t)"
  shows "tidy (t @ [NL])"
proof -
  have "t = [] \<or> (last t \<noteq> SP \<and> last t \<noteq> NL)"
    using assms(2) by (auto simp: py_isspace_def)
  then have e: "t = [] \<or> last t \<noteq> NL" and f: "t \<noteq> [] \<longrightarrow> last t \<noteq> SP" by blast+
  from assms(1) have "CR \<notin> set (t @ [NL])" "TAB \<notin> set (t @ [NL])" by (simp_all add: tidy_def)
  moreover from assms(1) have "successively no_sp_sp (t @ [NL])"
    by (simp add: tidy_def successively_append_iff no_sp_sp_def)
  moreover from assms(1) f have "successively no_sp_nl (t @ [NL])"
    by (cases "t = []") (simp_all add: tidy_def successively_append_iff no_sp_nl_def)
  moreover from assms(1) e have "no_nl3 (t @ [NL])" by (simp add: tidy_def no_nl3_snoc)
  ultimately show ?thesis by (simp only: tidy_def simp_thms)
qed

lemma normalize_pipeline: "normalize_str s = py_strip (pipeline s) @ [NL]"
  by (simp add: normalize_str_def pipeline_def Let_def)

lemma tidy_pipeline: "tidy (pipeline s)"
proof -
  let ?s1 = "py_replace [CR] [NL] (py_replace [CR, NL] [NL] s)"
  let ?s2 = "sub_hspace ?s1"
  let ?s3 = "sub_nl_trim ?s2"
  let ?s4 = "sub_nl_runs ?s3"
  have cr1: "CR \<notin> set ?s1" by (rule replace_single_removes) simp
  have cr2: "CR \<notin> set ?s2" using cr1 sub_hspace_set [of ?s1] by auto
  have tab2: "TAB \<notin> set ?s2" using sub_hspace_set [of ?s1] by auto
  have ss2: "successively no_sp_sp ?s2" by (rule sub_hspace_no_sp_sp)
  have cr3: "CR \<notin> set ?s3" and tab3: "TAB \<notin> set ?s3"
    using cr2 tab2 sub_nl_trim_set [of ?s2] by auto
  have ss3: "successively no_sp_sp ?s3" using ss2 by (rule sub_nl_trim_no_sp_sp)
  have sn3: "successively no_sp_nl ?s3" by (rule sub_nl_trim_no_sp_nl)
  have cr4: "CR \<notin> set ?s4" and tab4: "TAB \<notin> set ?s4"
    using cr3 tab3 sub_nl_runs_set [of ?s3] by auto
  have ss4: "successively no_sp_sp ?s4"
    using ss3 by (rule sub_nl_runs_successively) (simp add: no_sp_sp_def)
  have sn4: "successively no_sp_nl ?s4"
    using sn3 by (rule sub_nl_runs_successively) (simp add: no_sp_nl_def)
  have "no_nl3 ?s4" by (rule no_nl3_sub_nl_runs)
  with cr4 tab4 ss4 sn4 show ?thesis by (simp add: tidy_def pipeline_def)
qed

lemma pipeline_id:
  assumes "tidy s"
  shows "pipeline s = s"
proof -
  from assms have cr: "CR \<notin> set s" by (simp add: tidy_def)
  have "py_replace [CR, NL] [NL] s = s" using cr by (intro replace_absent [of CR]) simp_all
  moreover have "py_replace [CR] [NL] s = s" using cr by (intro replace_absent [of CR]) simp_all
  moreover have "sub_hspace s = s" using assms by (simp add: tidy_def sub_hspace_id)
  moreover have "sub_nl_trim s = s" using assms by (simp add: tidy_def sub_nl_trim_id)
  moreover have "sub_nl_runs s = s" using assms by (simp add: tidy_def sub_nl_runs_id)
  ultimately show ?thesis by (simp add: pipeline_def)
qed

text \<open>
  C4: text normalisation is idempotent: for every input string \<open>x\<close>,
  \<open>normalize_str (normalize_str x) = normalize_str x\<close>.
\<close>

theorem normalize_idempotent: "normalize_str (normalize_str s) = normalize_str s"
proof -
  let ?t = "py_strip (pipeline s)"
  obtain a b where "pipeline s = a @ ?t @ b" using strip_infix by blast
  then have "tidy (a @ ?t @ b)" using tidy_pipeline [of s] by simp
  then have "tidy ?t" by (rule tidy_infix)
  moreover have ends: "?t = [] \<or> (\<not> py_isspace (hd ?t) \<and> \<not> py_isspace (last ?t))"
    by (rule strip_ends)
  ultimately have "tidy (?t @ [NL])" by (auto intro: tidy_snoc)
  then have "pipeline (?t @ [NL]) = ?t @ [NL]" by (rule pipeline_id)
  moreover have "py_strip (?t @ [NL]) = ?t" using ends by (rule strip_fix)
  ultimately show ?thesis by (simp add: normalize_pipeline)
qed

subsection \<open>The shape of the produced text\<close>

lemma no_nl3_no_infix: "no_nl3 s \<Longrightarrow> s \<noteq> a @ [NL, NL, NL] @ b"
proof
  assume "no_nl3 s" "s = a @ [NL, NL, NL] @ b"
  then have "no_nl3 ([NL, NL, NL] @ b)" using no_nl3_appendD2 by blast
  then show False by simp
qed

lemma normalize_str_shape:
  obtains t where "normalize_str s = t @ [NL]" "tidy (t @ [NL])"
    "t = [] \<or> (\<not> py_isspace (hd t) \<and> \<not> py_isspace (last t))"
proof -
  let ?t = "py_strip (pipeline s)"
  obtain a b where "pipeline s = a @ ?t @ b" using strip_infix by blast
  then have "tidy (a @ ?t @ b)" using tidy_pipeline [of s] by simp
  then have "tidy ?t" by (rule tidy_infix)
  moreover have ends: "?t = [] \<or> (\<not> py_isspace (hd ?t) \<and> \<not> py_isspace (last ?t))"
    by (rule strip_ends)
  ultimately have "tidy (?t @ [NL])" by (auto intro: tidy_snoc)
  with ends show ?thesis using that [of ?t] by (simp add: normalize_pipeline)
qed

lemma html_to_text_normalize: "\<exists>s. html_to_text soup = normalize_str s"
  by (simp add: html_to_text_def Let_def) blast

text \<open>
  C5, as amended: for every parsed document the text produced by \<^const>\<open>html_to_text\<close>
  contains no run of three or more newlines, ends with exactly one newline, and either is the
  single newline (a document without text) or starts with a character that is not whitespace.
\<close>

theorem html_to_text_shape:
  "(\<forall>a b. html_to_text soup \<noteq> a @ [NL, NL, NL] @ b)
   \<and> (html_to_text soup = [NL] \<or> \<not> py_isspace (hd (html_to_text soup)))
   \<and> (\<exists>t. html_to_text soup = t @ [NL] \<and> (t = [] \<or> last t \<noteq> NL))"
proof -
  obtain s where s: "html_to_text soup = normalize_str s"
    using html_to_text_normalize by blast
  obtain t where t: "normalize_str s = t @ [NL]" "tidy (t @ [NL])"
    "t = [] \<or> (\<not> py_isspace (hd t) \<and> \<not> py_isspace (last t))"
    by (rule normalize_str_shape)
  from t(2) have "no_nl3 (t @ [NL])" by (simp add: tidy_def)
  then have 1: "\<forall>a b. html_to_text soup \<noteq> a @ [NL, NL, NL] @ b"
    using s t(1) no_nl3_no_infix by simp
  have 2: "html_to_text soup = [NL] \<or> \<not> py_isspace (hd (html_to_text soup))"
  proof (cases "t = []")
    case True with s t(1) show ?thesis by simp
  next
    case False
    with t(3) have "\<not> py_isspace (hd (t @ [NL]))" by simp
    with s t(1) show ?thesis by simp
  qed
  have "t = [] \<or> last t \<noteq> NL" using t(3) by (auto simp: py_isspace_def)
  with s t(1) have 3: "\<exists>t. html_to_text soup = t @ [NL] \<and> (t = [] \<or> last t \<noteq> NL)" by auto
  from 1 2 3 show ?thesis by blast
qed

text \<open>The theorem at a page with a heading and a paragraph.\<close>

lemma example_page_text: "html_to_text example_page = ''## Title'' @ [NL, NL] @ ''Body & text'' @ [NL]"
  by code_simp

theorem html_to_text_shape_witness:
  "html_to_text example_page = ''## Title'' @ [NL, NL] @ ''Body & text'' @ [NL]
   \<and> (\<forall>a b. html_to_text example_page \<noteq> a @ [NL, NL, NL] @ b)
   \<and> \<not> py_isspace (hd (html_to_text example_page))
   \<and> (\<exists>t. html_to_text example_page = t @ [NL] \<and> t \<noteq> [] \<and> last t \<noteq> NL)"
proof -
  note e = example_page_text
  from html_to_text_shape [of example_page]
  have "\<forall>a b. html_to_text example_page \<noteq> a @ [NL, NL, NL] @ b" by blast
  moreover have "\<not> py_isspace (hd (html_to_text example_page))"
    unfolding e by (simp add: py_isspace_def)
  moreover have "\<exists>t. html_to_text example_page = t @ [NL] \<and> t \<noteq> [] \<and> last t \<noteq> NL"
    unfolding e by (rule exI [of _ "''## Title'' @ [NL, NL] @ ''Body & text''"]) simp
  ultimately show ?thesis using e by blast
qed

text \<open>
  C5 as stated fails: the text of a document without content is the single newline, so it
  starts with whitespace.
\<close>

theorem html_to_text_leading_newline:
  "html_to_text empty_document = [NL] \<and> py_isspace (hd (html_to_text empty_document))"
proof -
  have "html_to_text empty_document = [NL]" by code_simp
  then show ?thesis by (simp add: py_isspace_def)
qed

subsection \<open>Tables\<close>

lemma split_on_nonempty: "split_on c s \<noteq> []"
  by (induction s) (auto split: list.splits)


lemma split_on_absent: "c \<notin> set a \<Longrightarrow> split_on c a = [a]"
  by (induction a) auto









subsection \<open>Paths and the path of a page\<close>

lemma split_on_pieces: "x \<in> set (split_on c s) \<Longrightarrow> c \<notin> set x"
proof (induction s arbitrary: x)
  case Nil then show ?case by simp
next
  case (Cons a s)
  show ?case
  proof (cases "a = c")
    case True with Cons show ?thesis by auto
  next
    case False
    obtain l ls where l: "split_on c s = l # ls"
      using split_on_nonempty [of c s] by (cases "split_on c s") auto
    with Cons.IH have "c \<notin> set l" "\<forall>y\<in>set ls. c \<notin> set y" by auto
    with Cons.prems False l show ?thesis by auto
  qed
qed

lemma components_wf: "list_all wf_component (components rel)"
  by (auto simp: components_def wf_component_def list_all_iff dest: split_on_pieces)

lemma components_single: "wf_component x \<Longrightarrow> components x = [x]"
  by (simp add: components_def wf_component_def split_on_absent)

lemma splitroot_wf: "wf_component x \<Longrightarrow> splitroot x = ([], x)"
  by (cases x) (auto simp: splitroot_def wf_component_def)

lemma parse_rev_wf_append:
  "list_all wf_component xs \<Longrightarrow>
     parse_rev (xs @ ys) = (fst (parse_rev ys), snd (parse_rev ys) @ rev xs)"
proof (induction xs)
  case Nil then show ?case by simp
next
  case (Cons x xs)
  then have x: "wf_component x" and ih: "parse_rev (xs @ ys) = (fst (parse_rev ys), snd (parse_rev ys) @ rev xs)"
    by simp_all
  from x have "x \<noteq> []" by (simp add: wf_component_def)
  with x ih show ?case by (simp add: splitroot_wf components_single)
qed

lemma parse_rev_root: "r = ''/'' \<or> r = ''//'' \<Longrightarrow> parse_rev [r] = (r, [])"
  by (auto simp: splitroot_def components_def)

lemma parse_parts_wf: "wf_path p \<Longrightarrow> parse_parts (path_parts p) = p"
proof (cases p)
  case (Path r ps)
  assume wf: "wf_path p"
  show ?thesis
  proof (cases "r = []")
    case True
    with wf Path have "list_all wf_component ps" by (simp add: wf_path_def)
    then have "list_all wf_component (rev ps)" by (simp add: list_all_iff)
    then have "parse_rev (rev ps @ []) = ([], ps)"
      by (subst parse_rev_wf_append) simp_all
    with True Path show ?thesis by (simp add: parse_parts_def)
  next
    case False
    with wf Path obtain qs where ps: "ps = r # qs" and r: "r = ''/'' \<or> r = ''//''"
      and qs: "list_all wf_component qs"
      by (cases ps) (auto simp: wf_path_def)
    from qs have "list_all wf_component (rev qs)" by (simp add: list_all_iff)
    then have "parse_rev (rev qs @ [r]) = (r, qs)"
      using parse_rev_root [OF r] by (subst parse_rev_wf_append) simp_all
    with False Path ps show ?thesis by (simp add: parse_parts_def)
  qed
qed

lemma splitroot_cases:
  obtains (rel) "splitroot s = ([], s)" "s = [] \<or> hd s \<noteq> CHR ''/''"
  | (root) r where "r = ''/'' \<or> r = ''//''" "splitroot s = (r, dropWhile (\<lambda>c. c = CHR ''/'') s)"
      "s \<noteq> []" "hd s = CHR ''/''"
proof (cases "s \<noteq> [] \<and> hd s = CHR ''/''")
  case False
  then show ?thesis using rel by (auto simp: splitroot_def)
next
  case True
  let ?d = "dropWhile (\<lambda>c. c = CHR ''/'') s"
  show ?thesis
  proof (cases "length s - length ?d = 2")
    case two: True
    with True have "splitroot s = (''//'', ?d)" by (simp add: splitroot_def)
    with True show ?thesis using root [of "''//''"] by simp
  next
    case False
    with True have "splitroot s = (''/'', ?d)" by (simp add: splitroot_def)
    with True show ?thesis using root [of "''/''"] by simp
  qed
qed

lemma Path_of_eq:
  "Path_of s =
     (let (r, rel) = splitroot s
      in Path r (if r \<noteq> [] then r # components rel else components rel))"
proof (cases "s = []")
  case True
  then show ?thesis by (simp add: Path_of_def parse_parts_def splitroot_def components_def)
next
  case False
  then show ?thesis
    by (cases s rule: splitroot_cases) (auto simp: Path_of_def parse_parts_def)
qed

lemma Path_of_wf: "wf_path (Path_of s)"
proof (cases s rule: splitroot_cases)
  case rel
  then show ?thesis by (simp add: Path_of_eq wf_path_def components_wf)
next
  case (root r)
  then show ?thesis by (auto simp: Path_of_eq wf_path_def components_wf)
qed

lemma path_name_wf: "wf_path p \<Longrightarrow> path_name p \<noteq> [] \<Longrightarrow> wf_component (path_name p)"
proof (cases p)
  case (Path r ps)
  assume wf: "wf_path p" and ne: "path_name p \<noteq> []"
  show ?thesis
  proof (cases "r = []")
    case True
    with wf Path ne have "ps \<noteq> []" "list_all wf_component ps"
      by (auto simp: wf_path_def path_name_def)
    then have "wf_component (last ps)" by (simp add: list_all_iff)
    with True Path \<open>ps \<noteq> []\<close> show ?thesis by (simp add: path_name_def)
  next
    case False
    with wf Path obtain qs where ps: "ps = r # qs" and qs: "list_all wf_component qs"
      by (cases ps) (auto simp: wf_path_def)
    with False Path ne have "qs \<noteq> []" by (auto simp: path_name_def)
    with qs have "wf_component (last qs)" by (simp add: list_all_iff)
    with False Path ps \<open>qs \<noteq> []\<close> show ?thesis by (simp add: path_name_def)
  qed
qed

lemma py_rfind_bounds: "-1 \<le> py_rfind c s \<and> py_rfind c s < int (length s)"
  by (induction s) (auto simp: Let_def)

lemma py_rfind_nth: "0 \<le> py_rfind c s \<Longrightarrow> s ! nat (py_rfind c s) = c"
proof (induction s)
  case Nil then show ?case by simp
next
  case (Cons x s)
  show ?case
  proof (cases "0 \<le> py_rfind c s")
    case True
    with Cons.IH have "s ! nat (py_rfind c s) = c" by simp
    with True show ?thesis by (simp add: Let_def nat_add_distrib)
  next
    case False
    with Cons.prems show ?thesis by (auto simp: Let_def split: if_splits)
  qed
qed

lemma stem_suffix: "path_stem p @ path_suffix p = path_name p"
  by (simp add: path_stem_def path_suffix_def Let_def)

lemma suffix_starts_with_dot: "path_suffix p \<noteq> [] \<Longrightarrow> hd (path_suffix p) = CHR ''.''"
proof -
  assume a: "path_suffix p \<noteq> []"
  let ?n = "path_name p"
  let ?i = "py_rfind (CHR ''.'') ?n"
  from a have i: "0 < ?i" "?i < int (length ?n) - 1" and s: "path_suffix p = drop (nat ?i) ?n"
    by (auto simp: path_suffix_def Let_def split: if_splits)
  then have "hd (drop (nat ?i) ?n) = ?n ! nat ?i" by (simp add: hd_drop_conv_nth)
  also have "\<dots> = CHR ''.''" using i py_rfind_nth [of "CHR ''.''" ?n] by simp
  finally show ?thesis using s by simp
qed

lemma stem_length: "length (path_name p) - length (path_suffix p) = length (path_stem p)"
  using stem_suffix [of p, symmetric] by simp

lemma suffix_set: "set (path_suffix p) \<subseteq> set (path_name p)"
  by (auto simp: path_suffix_def Let_def dest: in_set_dropD)

lemma new_name_wf:
  assumes "CHR ''/'' \<notin> set x"
  shows "wf_component (x @ ''.txt'')"
  using assms by (simp add: wf_component_def)

lemma with_suffix_path_wf:
  assumes "wf_path p" "path_name p \<noteq> []" "wf_component new"
  shows "wf_path (Path (path_root p) (butlast (path_parts p) @ [new]))"
proof (cases p)
  case (Path r ps)
  show ?thesis
  proof (cases "r = []")
    case True
    with assms Path have "list_all wf_component (butlast ps)"
      by (auto simp: wf_path_def list_all_iff dest: in_set_butlastD)
    with True Path assms(3) show ?thesis by (simp add: wf_path_def)
  next
    case False
    with assms(1) Path obtain qs where ps: "ps = r # qs" and r: "r = ''/'' \<or> r = ''//''"
      and qs: "list_all wf_component qs"
      by (cases ps) (auto simp: wf_path_def)
    with False Path assms(2) have ne: "qs \<noteq> []" by (auto simp: path_name_def)
    from qs have "list_all wf_component (butlast qs)"
      by (auto simp: list_all_iff dest: in_set_butlastD)
    with False Path ps r ne assms(3) show ?thesis by (auto simp: wf_path_def)
  qed
qed

lemma with_suffix_replace:
  assumes "path_name p \<noteq> []" "path_suffix p \<noteq> []"
  shows "with_suffix p ''.txt'' = Inr (Path (path_root p) (butlast (path_parts p) @ [path_stem p @ ''.txt'']))"
proof -
  have "take (length (path_stem p)) (path_name p) = path_stem p"
    using stem_suffix [of p] by (metis append_eq_conv_conj)
  with assms show ?thesis
    by (simp add: with_suffix_def py_startswith_def Let_def stem_length)
qed

lemma with_suffix_append:
  assumes "wf_path p" "path_name p \<noteq> []"
  shows "with_suffix p (path_suffix p @ ''.txt'')
         = Inr (Path (path_root p) (butlast (path_parts p) @ [path_name p @ ''.txt'']))"
proof -
  have "wf_component (path_name p)" using assms by (rule path_name_wf)
  then have 1: "CHR ''/'' \<notin> set (path_suffix p @ ''.txt'')"
    using suffix_set [of p] by (auto simp: wf_component_def)
  have 2: "py_startswith (path_suffix p @ ''.txt'') ''.''"
  proof (cases "path_suffix p = []")
    case True then show ?thesis by (simp add: py_startswith_def)
  next
    case False
    then have "hd (path_suffix p) = CHR ''.''" by (rule suffix_starts_with_dot)
    with False show ?thesis by (cases "path_suffix p") (simp_all add: py_startswith_def)
  qed
  have 3: "path_suffix p @ ''.txt'' \<noteq> ''.''"
  proof
    assume "path_suffix p @ ''.txt'' = ''.''"
    then have "length (path_suffix p @ ''.txt'') = length ''.''" by (rule arg_cong)
    then show False by simp
  qed
  have 4: "take (length (path_name p) - length (path_suffix p)) (path_name p) @ path_suffix p
           = path_name p"
    using stem_suffix [of p] stem_length [of p] by (metis append_eq_conv_conj)
  from 1 2 3 4 assms(2) show ?thesis
    unfolding with_suffix_def Let_def by (simp del: set_append)
qed

lemma with_suffix_no_name: "path_name p = [] \<Longrightarrow> with_suffix p sfx = Inl ValueError"
  by (simp add: with_suffix_def Let_def)

lemma suffix_no_name: "path_name p = [] \<Longrightarrow> path_suffix p = []"
  by (simp add: path_suffix_def Let_def)

lemma path_join_wf:
  "wf_path q \<Longrightarrow>
     path_join outdir q = (if path_root q \<noteq> [] then q
                           else Path (path_root outdir) (path_parts outdir @ path_parts q))"
  by (simp add: path_join_def parse_parts_wf)

lemma py_lower_html_nonempty: "py_lower s \<in> set [''.html'', ''.htm''] \<Longrightarrow> s \<noteq> []"
  by (auto simp: py_lower_def)

lemma stem_set: "set (path_stem p) \<subseteq> set (path_name p)"
  by (auto simp: path_stem_def Let_def dest: in_set_takeD)

lemma url_to_outpath_char:
  "url_to_outpath url root outdir =
     (let p = Path_of (outpath_rel url root)
      in if path_name p = [] then Inl ValueError
         else if path_root p \<noteq> [] then
           Inr (Path (path_root p) (butlast (path_parts p) @ [new_name p]))
         else Inr (Path (path_root outdir)
                     (path_parts outdir @ butlast (path_parts p) @ [new_name p])))"
proof -
  let ?p = "Path_of (outpath_rel url root)"
  have wf: "wf_path ?p" by (rule Path_of_wf)
  show ?thesis
  proof (cases "path_name ?p = []")
    case True
    then show ?thesis
      by (simp add: url_to_outpath_def Let_def with_suffix_no_name del: set_simps)
  next
    case False
    then have nwf: "wf_component (path_name ?p)" using wf path_name_wf by blast
    then have "CHR ''/'' \<notin> set (path_name ?p)" by (simp add: wf_component_def)
    then have "wf_component (new_name ?p)"
      using stem_set [of ?p] by (auto simp: new_name_def intro!: new_name_wf)
    then have wf': "wf_path (Path (path_root ?p) (butlast (path_parts ?p) @ [new_name ?p]))"
      using wf False with_suffix_path_wf by blast
    have ws: "(if py_lower (path_suffix ?p) \<in> set [''.html'', ''.htm'']
               then with_suffix ?p ''.txt''
               else with_suffix ?p (path_suffix ?p @ ''.txt''))
              = Inr (Path (path_root ?p) (butlast (path_parts ?p) @ [new_name ?p]))"
    proof (cases "py_lower (path_suffix ?p) \<in> set [''.html'', ''.htm'']")
      case True
      then have "path_suffix ?p \<noteq> []" by (rule py_lower_html_nonempty)
      then show ?thesis
        using with_suffix_replace [OF False] True by (simp add: new_name_def)
    next
      case nh: False
      then show ?thesis
        using with_suffix_append [OF wf False] by (simp add: new_name_def)
    qed
    show ?thesis
      unfolding url_to_outpath_def Let_def ws
      using False by (simp add: path_join_wf [OF wf'])
  qed
qed

lemma split_on_append_sep: "split_on c (a @ c # b) = split_on c a @ split_on c b"
proof (induction a)
  case Nil then show ?case by simp
next
  case (Cons x a)
  obtain l ls where "split_on c a = l # ls"
    using split_on_nonempty [of c a] by (cases "split_on c a") auto
  with Cons show ?case by simp
qed

lemma components_index:
  assumes "z = [] \<or> last z = CHR ''/''"
  shows "\<exists>cs. components (z @ ''index.html'') = cs @ [''index.html'']"
proof (cases "z = []")
  case True
  then show ?thesis by (simp add: components_def)
next
  case False
  with assms obtain w where "z = w @ ''/''"
    by (metis append_butlast_last_id)
  then have "components (z @ ''index.html'') = components w @ [''index.html'']"
    using split_on_append_sep [of "CHR ''/''" w "''index.html''"] by (simp add: components_def)
  then show ?thesis by blast
qed

lemma dropWhile_slash_index:
  assumes "z = [] \<or> last z = CHR ''/''"
  shows "\<exists>y. dropWhile (\<lambda>c. c = CHR ''/'') (z @ ''index.html'') = y @ ''index.html''
             \<and> (y = [] \<or> last y = CHR ''/'')"
proof (cases "\<forall>x\<in>set z. x = CHR ''/''")
  case True
  then have "dropWhile (\<lambda>c. c = CHR ''/'') (z @ ''index.html'') = [] @ ''index.html''"
    by (simp add: dropWhile_append)
  then show ?thesis by blast
next
  case False
  then have d: "dropWhile (\<lambda>c. c = CHR ''/'') (z @ ''index.html'')
             = dropWhile (\<lambda>c. c = CHR ''/'') z @ ''index.html''"
    by (auto simp: dropWhile_append)
  from False have ne: "dropWhile (\<lambda>c. c = CHR ''/'') z \<noteq> []" by auto
  then have "z \<noteq> []" by auto
  have "last (dropWhile (\<lambda>c. c = CHR ''/'') z) = last z"
    using ne by (metis takeWhile_dropWhile_id last_appendR)
  with assms \<open>z \<noteq> []\<close> d show ?thesis by auto
qed

lemma Path_of_index:
  assumes "z = [] \<or> last z = CHR ''/''"
  shows "path_name (Path_of (z @ ''index.html'')) = ''index.html''"
proof (cases "z @ ''index.html''" rule: splitroot_cases)
  case rel
  obtain cs where "components (z @ ''index.html'') = cs @ [''index.html'']"
    using components_index [OF assms] by blast
  with rel show ?thesis by (simp add: Path_of_eq path_name_def)
next
  case (root r)
  obtain y where y: "dropWhile (\<lambda>c. c = CHR ''/'') (z @ ''index.html'') = y @ ''index.html''"
    "y = [] \<or> last y = CHR ''/''"
    using dropWhile_slash_index [OF assms] by blast
  obtain cs where "components (y @ ''index.html'') = cs @ [''index.html'']"
    using components_index [OF y(2)] by blast
  with root y(1) show ?thesis by (auto simp: Path_of_eq path_name_def)
qed

lemma index_name_parts:
  assumes "path_name p = ''index.html''"
  shows "new_name p = ''index.txt''"
proof -
  have r: "py_rfind (CHR ''.'') ''index.html'' = 5" by code_simp
  have "path_suffix p = ''.html''" "path_stem p = ''index''"
    using assms r by (simp_all add: path_suffix_def path_stem_def)
  moreover have "py_lower ''.html'' = ''.html''" by code_simp
  ultimately show ?thesis by (simp add: new_name_def)
qed

lemma outpath_rel_under_root:
  "outpath_rel (root @ rel0) root =
     takeWhile (\<lambda>c. c \<noteq> CHR ''?'')
       (if rel0 = [] \<or> last rel0 = CHR ''/'' then rel0 @ ''index.html'' else rel0)"
proof -
  have "py_endswith rel0 ''/'' \<longleftrightarrow> rel0 \<noteq> [] \<and> last rel0 = CHR ''/''"
  proof (cases "rel0 = []")
    case True then show ?thesis by (simp add: py_endswith_def)
  next
    case False
    then have "drop (length rel0 - Suc 0) rel0 = [last rel0]"
      by (metis append_butlast_last_id append_eq_conv_conj length_butlast One_nat_def)
    with False show ?thesis by (auto simp: py_endswith_def Suc_le_eq)
  qed
  then show ?thesis by (auto simp: outpath_rel_def Let_def)
qed

lemma Path_of_relative: "s = [] \<or> hd s \<noteq> CHR ''/'' \<Longrightarrow> path_root (Path_of s) = []"
proof (cases s rule: splitroot_cases)
  case rel
  then show ?thesis by (simp add: Path_of_eq)
next
  case (root r)
  assume "s = [] \<or> hd s \<noteq> CHR ''/''"
  with root(3,4) show ?thesis by simp
qed

lemma outpath_rel_relative:
  assumes "\<not> py_startswith rel0 ''/''"
  shows "outpath_rel (root @ rel0) root = []
         \<or> hd (outpath_rel (root @ rel0) root) \<noteq> CHR ''/''"
proof (cases rel0)
  case Nil
  then show ?thesis using outpath_rel_under_root [of root "[]"] by simp
next
  case (Cons c t)
  with assms have c: "c \<noteq> CHR ''/''" by (simp add: py_startswith_def)
  show ?thesis
  proof (cases "c = CHR ''?''")
    case True
    with Cons show ?thesis by (simp add: outpath_rel_under_root)
  next
    case False
    with Cons c show ?thesis by (simp add: outpath_rel_under_root)
  qed
qed

text \<open>
  C3, as amended. Take a URL \<open>root @ rel0\<close> whose remainder \<open>rel0\<close> does not start with a slash
  and leaves, when the steps below are done, a path with a final component. The root prefix
  is removed; if the remainder is empty or ends in a slash, \<^verbatim>\<open>index.html\<close> is appended; the
  query string is stripped; the rest is parsed as a path \<open>p\<close>. The final component of \<open>p\<close>
  gets its new name (\<^const>\<open>new_name\<close>: \<^verbatim>\<open>.txt\<close> in the place of an HTML extension, appended
  to any other name), and the result is the parts of \<open>p\<close> after the parts of the output
  directory. When the remainder is empty or ends in a slash and contains no question mark,
  the last part of the result is \<^verbatim>\<open>index.txt\<close>.
\<close>

theorem url_to_outpath_steps:
  assumes "\<not> py_startswith rel0 ''/''"
    and "path_name (Path_of (outpath_rel (root @ rel0) root)) \<noteq> []"
  shows "outpath_rel (root @ rel0) root =
     takeWhile (\<lambda>c. c \<noteq> CHR ''?'')
       (if rel0 = [] \<or> last rel0 = CHR ''/'' then rel0 @ ''index.html'' else rel0)
   \<and> url_to_outpath (root @ rel0) root outdir =
     (let p = Path_of (outpath_rel (root @ rel0) root)
      in Inr (Path (path_root outdir)
                (path_parts outdir @ butlast (path_parts p) @ [new_name p])))
   \<and> ((rel0 = [] \<or> last rel0 = CHR ''/'') \<and> CHR ''?'' \<notin> set rel0 \<longrightarrow>
        (\<exists>res. url_to_outpath (root @ rel0) root outdir = Inr res
               \<and> last (path_parts res) = ''index.txt''))"
proof (intro conjI impI)
  let ?p = "Path_of (outpath_rel (root @ rel0) root)"
  show "outpath_rel (root @ rel0) root =
     takeWhile (\<lambda>c. c \<noteq> CHR ''?'')
       (if rel0 = [] \<or> last rel0 = CHR ''/'' then rel0 @ ''index.html'' else rel0)"
    by (rule outpath_rel_under_root)
  have r: "path_root ?p = []"
    using outpath_rel_relative [OF assms(1)] by (rule Path_of_relative)
  show eq: "url_to_outpath (root @ rel0) root outdir =
     (let p = Path_of (outpath_rel (root @ rel0) root)
      in Inr (Path (path_root outdir)
                (path_parts outdir @ butlast (path_parts p) @ [new_name p])))"
    using assms(2) r by (simp add: url_to_outpath_char Let_def)
  assume a: "(rel0 = [] \<or> last rel0 = CHR ''/'') \<and> CHR ''?'' \<notin> set rel0"
  then have "takeWhile (\<lambda>c. c \<noteq> CHR ''?'') (rel0 @ ''index.html'') = rel0 @ ''index.html''"
    by (intro takeWhile_eq_all_conv [THEN iffD2]) auto
  with a have rel: "outpath_rel (root @ rel0) root = rel0 @ ''index.html''"
    by (simp add: outpath_rel_under_root)
  from a have n: "path_name (Path_of (rel0 @ ''index.html'')) = ''index.html''"
    by (intro Path_of_index) simp
  then have nn: "new_name (Path_of (rel0 @ ''index.html'')) = ''index.txt''"
    by (rule index_name_parts)
  show "\<exists>res. url_to_outpath (root @ rel0) root outdir = Inr res
               \<and> last (path_parts res) = ''index.txt''"
    unfolding eq rel Let_def using nn by simp
qed

subsection \<open>The path of a page: the claims\<close>

text \<open>
  The theorem at the root itself (the result ends in \<^verbatim>\<open>index.txt\<close>) and at a page with an
  HTML extension in capitals and a query; and the path of a name with another extension.
\<close>

theorem url_to_outpath_steps_witness:
  "(\<exists>res. url_to_outpath example_root example_root example_outdir = Inr res
          \<and> last (path_parts res) = ''index.txt'')
   \<and> url_to_outpath example_root example_root example_outdir
       = Inr (Path ''/'' [''/'', ''out'', ''index.txt''])
   \<and> url_to_outpath (example_root @ ''a/b.HTML?x=1'') example_root example_outdir
       = Inr (Path ''/'' [''/'', ''out'', ''a'', ''b.txt''])
   \<and> url_to_outpath (example_root @ ''a/b.png'') example_root example_outdir
       = Inr (Path ''/'' [''/'', ''out'', ''a'', ''b.png.txt''])"
proof -
  have h1: "\<not> py_startswith [] ''/''" by (simp add: py_startswith_def)
  have h2: "path_name (Path_of (outpath_rel (example_root @ []) example_root)) \<noteq> []"
    by code_simp
  note t = url_to_outpath_steps [OF h1 h2, of example_outdir, THEN conjunct2, THEN conjunct2]
  from t have "\<exists>res. url_to_outpath (example_root @ []) example_root example_outdir = Inr res
          \<and> last (path_parts res) = ''index.txt''"
    by simp
  moreover have "url_to_outpath example_root example_root example_outdir
       = Inr (Path ''/'' [''/'', ''out'', ''index.txt''])" by code_simp
  moreover have "url_to_outpath (example_root @ ''a/b.HTML?x=1'') example_root example_outdir
       = Inr (Path ''/'' [''/'', ''out'', ''a'', ''b.txt''])"
  proof -
    have g1: "\<not> py_startswith ''a/b.HTML?x=1'' ''/''" by code_simp
    have g2: "path_name (Path_of (outpath_rel (example_root @ ''a/b.HTML?x=1'') example_root)) \<noteq> []"
      by code_simp
    note u = url_to_outpath_steps [OF g1 g2, of example_outdir, THEN conjunct2, THEN conjunct1]
    have "(let p = Path_of (outpath_rel (example_root @ ''a/b.HTML?x=1'') example_root)
           in (Inr (Path (path_root example_outdir)
                     (path_parts example_outdir @ butlast (path_parts p) @ [new_name p]))
               :: exn + path))
          = Inr (Path ''/'' [''/'', ''out'', ''a'', ''b.txt''])"
      by code_simp
    with u show ?thesis by (rule trans)
  qed
  moreover have "url_to_outpath (example_root @ ''a/b.png'') example_root example_outdir
       = Inr (Path ''/'' [''/'', ''out'', ''a'', ''b.png.txt''])" by code_simp
  ultimately show ?thesis by simp
qed

text \<open>
  C3 as stated fails: the default document name is appended before the query string is
  stripped, so a remainder that ends in a slash inside its query string does not give a
  result that ends in \<^verbatim>\<open>index.txt\<close>.
\<close>

theorem url_to_outpath_query_after_slash:
  "py_startswith (example_root @ ''a/?q=/'') example_root
   \<and> py_endswith (drop (length example_root) (example_root @ ''a/?q=/'')) ''/''
   \<and> url_to_outpath (example_root @ ''a/?q=/'') example_root example_outdir
       = Inr (Path ''/'' [''/'', ''out'', ''a.txt''])
   \<and> path_str (Path ''/'' [''/'', ''out'', ''a.txt'']) = ''/out/a.txt''
   \<and> \<not> py_endswith ''/out/a.txt'' ''index.txt''"
  by code_simp

text \<open>
  C9: the path mapping is partial. For every root, a URL that consists of the root and a query
  string is within the root; the query-stripping step leaves the empty path, and the
  extension step fails with \<^verbatim>\<open>ValueError\<close> instead of returning a path.
\<close>

theorem url_to_outpath_query_only:
  "py_startswith (root @ CHR ''?'' # q) root
   \<and> outpath_rel (root @ CHR ''?'' # q) root = []
   \<and> url_to_outpath (root @ CHR ''?'' # q) root outdir = Inl ValueError"
proof -
  have 1: "py_startswith (root @ CHR ''?'' # q) root" by (simp add: py_startswith_def)
  have 2: "outpath_rel (root @ CHR ''?'' # q) root = []"
    by (simp add: outpath_rel_under_root)
  have "path_name (Path_of []) = []" by code_simp
  with 2 have 3: "url_to_outpath (root @ CHR ''?'' # q) root outdir = Inl ValueError"
    by (simp add: url_to_outpath_char)
  from 1 2 3 show ?thesis by blast
qed

text \<open>
  At \<^verbatim>\<open>root + "?x=1"\<close>: the remainder is not empty and does not end in a slash, so no
  default document name is appended.
\<close>

theorem url_to_outpath_query_only_witness:
  "drop (length example_root) (example_root @ ''?x=1'') = ''?x=1''
   \<and> \<not> py_endswith ''?x=1'' ''/''
   \<and> py_startswith (example_root @ ''?x=1'') example_root
   \<and> outpath_rel (example_root @ ''?x=1'') example_root = []
   \<and> url_to_outpath (example_root @ ''?x=1'') example_root example_outdir = Inl ValueError"
proof -
  have "drop (length example_root) (example_root @ ''?x=1'') = ''?x=1''" by simp
  moreover have "\<not> py_endswith ''?x=1'' ''/''" by code_simp
  ultimately show ?thesis
    using url_to_outpath_query_only [of example_root "''x=1''" example_outdir] by simp
qed

lemma normpath_parts_plain: "''..'' \<notin> set ds \<Longrightarrow> foldl (\<lambda>acc c. if c = ''..'' then butlast acc else acc @ [c]) acc ds = acc @ ds"
  by (induction ds arbitrary: acc) auto

lemma normpath_parts_escape:
  "''..'' \<notin> set ds \<Longrightarrow> normpath_parts (ds @ [''..'', ''escape.txt'']) = butlast ds @ [''escape.txt'']"
  by (simp add: normpath_parts_def normpath_parts_plain)

text \<open>
  C10: the path mapping does not keep its result inside the output directory. For every root
  and every resolved output directory other than the file system root, the URL
  \<^verbatim>\<open>root + "../escape.html"\<close> passes the root-prefix check, and its path is the output
  directory followed by \<^verbatim>\<open>..\<close> and \<^verbatim>\<open>escape.txt\<close>, which is not inside the output
  directory.
\<close>

theorem url_to_outpath_escapes:
  assumes "ds \<noteq> []" "''..'' \<notin> set ds"
  shows "py_startswith (root @ ''../escape.html'') root
   \<and> url_to_outpath (root @ ''../escape.html'') root (Path ''/'' (''/'' # ds))
       = Inr (Path ''/'' (''/'' # ds @ [''..'', ''escape.txt'']))
   \<and> \<not> inside (Path ''/'' (''/'' # ds)) (Path ''/'' (''/'' # ds @ [''..'', ''escape.txt'']))"
proof -
  have 1: "py_startswith (root @ ''../escape.html'') root" by (simp add: py_startswith_def)
  have rel: "outpath_rel (root @ ''../escape.html'') root = ''../escape.html''"
    by (simp add: outpath_rel_under_root)
  have p: "Path_of ''../escape.html'' = Path [] [''..'', ''escape.html'']" by code_simp
  have n: "new_name (Path [] [''..'', ''escape.html'']) = ''escape.txt''" by code_simp
  have nm: "path_name (Path [] [''..'', ''escape.html'']) = ''escape.html''" by code_simp
  have 2: "url_to_outpath (root @ ''../escape.html'') root (Path ''/'' (''/'' # ds))
       = Inr (Path ''/'' (''/'' # ds @ [''..'', ''escape.txt'']))"
    unfolding url_to_outpath_char rel p Let_def n nm by simp
  have "length (normpath_parts (ds @ [''..'', ''escape.txt''])) = length ds"
    using assms by (simp add: normpath_parts_escape)
  then have 3: "\<not> inside (Path ''/'' (''/'' # ds)) (Path ''/'' (''/'' # ds @ [''..'', ''escape.txt'']))"
    by (simp add: inside_def)
  from 1 2 3 show ?thesis by blast
qed

text \<open>
  The theorem at the output directory \<^verbatim>\<open>/out\<close>: the path is \<^verbatim>\<open>/out/../escape.txt\<close>, which
  leads to \<^verbatim>\<open>/escape.txt\<close>; and the crawl loop, started at this URL, writes its file there.
\<close>

theorem url_to_outpath_escapes_witness:
  "py_startswith (example_root @ ''../escape.html'') example_root
   \<and> url_to_outpath (example_root @ ''../escape.html'') example_root example_outdir
       = Inr (Path ''/'' [''/'', ''out'', ''..'', ''escape.txt''])
   \<and> \<not> inside example_outdir (Path ''/'' [''/'', ''out'', ''..'', ''escape.txt''])
   \<and> normpath_parts [''out'', ''..'', ''escape.txt''] = [''escape.txt'']
   \<and> st_written (main escape_config escape_world)
       = [(''https://site/root/../escape.html'', Path ''/'' [''/'', ''out'', ''..'', ''escape.txt''], [NL])]"
proof -
  have "normpath_parts [''out'', ''..'', ''escape.txt''] = [''escape.txt'']" by code_simp
  moreover have "st_written (main escape_config escape_world)
       = [(''https://site/root/../escape.html'', Path ''/'' [''/'', ''out'', ''..'', ''escape.txt''], [NL])]"
    by code_simp
  ultimately show ?thesis
    using url_to_outpath_escapes [of "[''out'']" example_root] by (simp add: example_outdir_def)
qed

subsection \<open>The crawl loop: what a pass does, and what it keeps\<close>

lemma enqueue_allowed:
  "enqueue hc r seen links queue = Inr queue' \<Longrightarrow>
     set queue' \<subseteq> set queue \<union> {l. is_within_root l r \<and> should_skip_url hc l = Inr False}"
proof (induction links arbitrary: queue)
  case Nil then show ?case by simp
next
  case (Cons link links)
  show ?case
  proof (cases "link \<notin> seen \<and> is_within_root link r")
    case False
    with Cons.prems have "enqueue hc r seen links queue = Inr queue'" by auto
    with Cons.IH show ?thesis by blast
  next
    case True
    with Cons.prems obtain skip where sk: "should_skip_url hc link = Inr skip"
      and e: "enqueue hc r seen links (if \<not> skip then queue @ [link] else queue) = Inr queue'"
      by (auto split: sum.splits)
    from Cons.IH [OF e] True sk show ?thesis by (cases skip) auto
  qed
qed

lemma loop_body_cases:
  assumes q: "st_queue s = url # rest"
  obtains
    (pass) "st_fetched (loop_body cfg world s) = st_fetched s"
      "st_written (loop_body cfg world s) = st_written s"
      "st_saved (loop_body cfg world s) = st_saved s"
      "st_queue (loop_body cfg world s) = rest"
  | (fetched) "allowed cfg world url"
      "st_fetched (loop_body cfg world s) = st_fetched s @ [(url, st_saved s)]"
      "st_written (loop_body cfg world s) = st_written s"
      "st_saved (loop_body cfg world s) = st_saved s"
      "st_queue (loop_body cfg world s) = rest"
  | (saved) outpath page_text where "allowed cfg world url"
      "st_fetched (loop_body cfg world s) = st_fetched s @ [(url, st_saved s)]"
      "st_written (loop_body cfg world s) = st_written s @ [(url, outpath, page_text)]"
      "st_saved (loop_body cfg world s) = st_saved s + 1"
      "url_to_outpath url (cfg_root cfg) (cfg_outdir cfg) = Inr outpath"
      "set (st_queue (loop_body cfg world s)) \<subseteq> set rest \<union> {l. allowed cfg world l}"
proof -
  let ?s' = "loop_body cfg world s"
  show ?thesis
  proof (cases "url \<notin> st_seen s \<and> allowed cfg world url")
    case False
    then have "st_fetched ?s' = st_fetched s \<and> st_written ?s' = st_written s
        \<and> st_saved ?s' = st_saved s \<and> st_queue ?s' = rest"
      using q unfolding loop_body_def Let_def allowed_def
      by (auto split: sum.split bool.split)
    then show ?thesis using pass by blast
  next
    case True
    then have a: "allowed cfg world url" and ns: "url \<notin> st_seen s" by simp_all
    then have w: "is_within_root url (cfg_root cfg)"
      and sk: "should_skip_url (env_checks world) url = Inr False"
      by (simp_all add: allowed_def)
    show ?thesis
    proof (cases "fetch world url (cfg_timeout cfg)")
      case (Inl e)
      then have "st_fetched ?s' = st_fetched s @ [(url, st_saved s)] \<and> st_written ?s' = st_written s
        \<and> st_saved ?s' = st_saved s \<and> st_queue ?s' = rest"
        using q ns w sk unfolding loop_body_def Let_def by simp
      with a show ?thesis using fetched by blast
    next
      case (Inr html)
      show ?thesis
      proof (cases "url_to_outpath url (cfg_root cfg) (cfg_outdir cfg)")
        case (Inl e)
        then have "st_fetched ?s' = st_fetched s @ [(url, st_saved s)] \<and> st_written ?s' = st_written s
          \<and> st_saved ?s' = st_saved s \<and> st_queue ?s' = rest"
          using q ns w sk Inr unfolding loop_body_def Let_def by simp
        with a show ?thesis using fetched by blast
      next
        case op: (Inr outpath)
        show ?thesis
        proof (cases "env_write_ok world outpath")
          case False
          then have "st_fetched ?s' = st_fetched s @ [(url, st_saved s)] \<and> st_written ?s' = st_written s
            \<and> st_saved ?s' = st_saved s \<and> st_queue ?s' = rest"
            using q ns w sk Inr op unfolding loop_body_def Let_def by simp
          with a show ?thesis using fetched by blast
        next
          case True
          let ?text = "html_to_text (env_parse world html)"
          have 1: "st_fetched ?s' = st_fetched s @ [(url, st_saved s)]
            \<and> st_written ?s' = st_written s @ [(url, outpath, ?text)]
            \<and> st_saved ?s' = st_saved s + 1"
            using q ns w sk Inr op True unfolding loop_body_def Let_def
            by (simp split: sum.split)
          have 2: "set (st_queue ?s') \<subseteq> set rest \<union> {l. allowed cfg world l}"
          proof (cases "relative_to_ok outpath (cfg_outdir cfg)")
            case False
            then have "st_queue ?s' = rest"
              using q ns w sk Inr op True unfolding loop_body_def Let_def by simp
            then show ?thesis by auto
          next
            case rel: True
            show ?thesis
            proof (cases "extract_links (env_checks world) (env_parse world html) url")
              case (Inl e)
              then have "st_queue ?s' = rest"
                using q ns w sk Inr op True rel unfolding loop_body_def Let_def by simp
              then show ?thesis by auto
            next
              case links: (Inr links)
              show ?thesis
              proof (cases "enqueue (env_checks world) (cfg_root cfg) (insert url (st_seen s))
                               (env_set_order world links) rest")
                case (Inl e)
                then have "st_queue ?s' = rest"
                  using q ns w sk Inr op True rel links unfolding loop_body_def Let_def by simp
                then show ?thesis by auto
              next
                case en: (Inr queue)
                then have "st_queue ?s' = queue"
                  using q ns w sk Inr op True rel links unfolding loop_body_def Let_def by simp
                with enqueue_allowed [OF en] show ?thesis by (auto simp: allowed_def)
              qed
            qed
          qed
          from a 1 2 op show ?thesis using saved [of outpath ?text] by blast
        qed
      qed
    qed
  qed
qed

lemma crawl_inv_initial: "crawl_inv cfg world (initial_state cfg)"
  by (simp add: crawl_inv_def initial_state_def)

lemma crawl_inv_step:
  assumes inv: "crawl_inv cfg world s" and c: "loop_cond cfg s"
  shows "crawl_inv cfg world (loop_body cfg world s)"
proof -
  let ?s' = "loop_body cfg world s"
  from c obtain url rest where q: "st_queue s = url # rest"
    by (cases "st_queue s") (auto simp: loop_cond_def)
  from c have lt: "st_saved s < cfg_max_pages cfg" by (simp add: loop_cond_def)
  from inv have f: "\<forall>(u, n) \<in> set (st_fetched s). allowed cfg world u \<and> n < cfg_max_pages cfg"
    and w: "\<forall>(u, p, t) \<in> set (st_written s).
            allowed cfg world u \<and> u \<in> fst ` set (st_fetched s)
            \<and> url_to_outpath u (cfg_root cfg) (cfg_outdir cfg) = Inr p"
    and qs: "\<forall>u \<in> set (st_queue s). u = cfg_start cfg \<or> allowed cfg world u"
    and sv: "st_saved s = int (length (st_written s))"
    and mx: "st_saved s \<le> max 0 (cfg_max_pages cfg)"
    by (simp_all add: crawl_inv_def)
  from qs q have qr: "\<forall>u \<in> set rest. u = cfg_start cfg \<or> allowed cfg world u" by simp
  from q show ?thesis
  proof (cases rule: loop_body_cases [where cfg = cfg and world = world, consumes 1,
           case_names pass fetched saved])
    case pass
    with f w qr sv mx show ?thesis by (simp add: crawl_inv_def)
  next
    case fetched
    have "\<forall>(u, n) \<in> set (st_fetched ?s'). allowed cfg world u \<and> n < cfg_max_pages cfg"
      using f fetched(1,2) lt by auto
    moreover have "\<forall>(u, p, t) \<in> set (st_written ?s').
            allowed cfg world u \<and> u \<in> fst ` set (st_fetched ?s')
            \<and> url_to_outpath u (cfg_root cfg) (cfg_outdir cfg) = Inr p"
      using w fetched(2,3) by auto
    ultimately show ?thesis using fetched qr sv mx by (simp add: crawl_inv_def)
  next
    case (saved outpath page_text)
    have "\<forall>(u, n) \<in> set (st_fetched ?s'). allowed cfg world u \<and> n < cfg_max_pages cfg"
      using f saved(1,2) lt by auto
    moreover have "\<forall>(u, p, t) \<in> set (st_written ?s').
            allowed cfg world u \<and> u \<in> fst ` set (st_fetched ?s')
            \<and> url_to_outpath u (cfg_root cfg) (cfg_outdir cfg) = Inr p"
      using w saved(1,2,3,5) by auto
    moreover have "\<forall>u \<in> set (st_queue ?s'). u = cfg_start cfg \<or> allowed cfg world u"
      using qr saved(6) by auto
    moreover have "st_saved ?s' = int (length (st_written ?s'))"
      using sv saved(3,4) by simp
    moreover have "st_saved ?s' \<le> max 0 (cfg_max_pages cfg)"
      using lt saved(4) by simp
    ultimately show ?thesis by (simp add: crawl_inv_def)
  qed
qed

lemma reachable_inv: "reachable cfg world s \<Longrightarrow> crawl_inv cfg world s"
  by (induction rule: reachable.induct) (simp_all add: crawl_inv_initial crawl_inv_step)

lemma crawl_loop_reachable:
  "reachable cfg world s \<Longrightarrow> reachable cfg world (crawl_loop cfg world s)"
proof (induction cfg world s rule: crawl_loop.induct)
  case (1 cfg world s)
  show ?case
  proof (cases "loop_cond cfg s")
    case True
    with 1 have "reachable cfg world (crawl_loop cfg world (loop_body cfg world s))"
      by (simp add: reachable.step)
    with True show ?thesis by (subst crawl_loop.simps) simp
  next
    case False
    with 1 show ?thesis by (subst crawl_loop.simps) simp
  qed
qed

lemma crawl_loop_final: "\<not> loop_cond cfg (crawl_loop cfg world s)"
proof (induction cfg world s rule: crawl_loop.induct)
  case (1 cfg world s)
  show ?case
  proof (cases "loop_cond cfg s")
    case True
    with 1 show ?thesis by (subst crawl_loop.simps) simp
  next
    case False
    then show ?thesis by (subst crawl_loop.simps) simp
  qed
qed

lemma main_reachable: "reachable cfg world (main cfg world)"
  unfolding main_def by (rule crawl_loop_reachable) (rule reachable.initial)

subsection \<open>The crawl loop and fetching: the claims\<close>

text \<open>What it means that a URL is not skipped.\<close>

lemma should_skip_url_False:
  "should_skip_url hc url = Inr False \<longleftrightarrow>
     (\<exists>p. urlparse hc url [] = Inr p
          \<and> (\<forall>ext\<in>set SKIP_EXT. \<not> py_endswith (py_lower (u_path p)) ext))"
  by (cases "urlparse hc url []") (auto simp: should_skip_url_def Let_def list_ex_iff)

text \<open>
  C1: in every reachable state of the loop, and so in the state \<^verbatim>\<open>main\<close> ends with, every
  URL that was fetched and every URL a file was written for starts with the root, and its
  path does not end, in any case of the letters, in an extension of the skip list. This holds
  for the start URL too: the two checks stand between taking a URL from the queue and
  fetching it. They are applied again before a link enters the queue: every URL in the queue
  other than the start URL passed them.
\<close>

theorem crawl_stays_within_root:
  "reachable cfg world (main cfg world)
   \<and> (\<forall>s. reachable cfg world s \<longrightarrow>
        (\<forall>(u, n) \<in> set (st_fetched s).
            is_within_root u (cfg_root cfg) \<and> should_skip_url (env_checks world) u = Inr False)
      \<and> (\<forall>(u, p, t) \<in> set (st_written s).
            is_within_root u (cfg_root cfg) \<and> should_skip_url (env_checks world) u = Inr False)
      \<and> (\<forall>u \<in> set (st_queue s).
            u = cfg_start cfg
            \<or> (is_within_root u (cfg_root cfg) \<and> should_skip_url (env_checks world) u = Inr False)))"
proof (intro conjI allI impI)
  show "reachable cfg world (main cfg world)" by (rule main_reachable)
next
  fix s assume "reachable cfg world s"
  then have inv: "crawl_inv cfg world s" by (rule reachable_inv)
  then show "\<forall>(u, n) \<in> set (st_fetched s).
            is_within_root u (cfg_root cfg) \<and> should_skip_url (env_checks world) u = Inr False"
    unfolding crawl_inv_def allowed_def by blast
  from inv show "\<forall>(u, p, t) \<in> set (st_written s).
            is_within_root u (cfg_root cfg) \<and> should_skip_url (env_checks world) u = Inr False"
    unfolding crawl_inv_def allowed_def by blast
  from inv show "\<forall>u \<in> set (st_queue s).
            u = cfg_start cfg
            \<or> (is_within_root u (cfg_root cfg) \<and> should_skip_url (env_checks world) u = Inr False)"
    unfolding crawl_inv_def allowed_def by blast
qed

text \<open>
  The run of the small site with at most two pages.
\<close>

lemma site_run:
  "st_fetched (main site_config site_world)
     = [(''https://site/root/index.html'', 0), (''https://site/root/a.html'', 1),
        (''https://site/root/b.html'', 1)]"
  "map fst (st_written (main site_config site_world))
     = [''https://site/root/index.html'', ''https://site/root/b.html'']"
  "st_queue (main site_config site_world) = [''https://site/root/c.html'']"
  "st_saved (main site_config site_world) = 2"
  "st_failure (main site_config site_world) = None"
  by code_simp+

text \<open>
  The theorem at the run of the small site: three URLs are fetched and each passes both checks;
  with an image or a page of another host as the start URL nothing is fetched.
\<close>

theorem crawl_stays_within_root_witness:
  "map fst (st_fetched (main site_config site_world))
     = [''https://site/root/index.html'', ''https://site/root/a.html'', ''https://site/root/b.html'']
   \<and> is_within_root ''https://site/root/index.html'' (cfg_root site_config)
   \<and> should_skip_url (env_checks site_world) ''https://site/root/index.html'' = Inr False
   \<and> is_within_root ''https://site/root/a.html'' (cfg_root site_config)
   \<and> should_skip_url (env_checks site_world) ''https://site/root/a.html'' = Inr False
   \<and> is_within_root ''https://site/root/b.html'' (cfg_root site_config)
   \<and> should_skip_url (env_checks site_world) ''https://site/root/b.html'' = Inr False
   \<and> st_fetched (main (site_config\<lparr>cfg_start := ''https://site/root/logo.png''\<rparr>) site_world) = []
   \<and> st_fetched (main (site_config\<lparr>cfg_start := ''https://other.org/x.html''\<rparr>) site_world) = []"
proof -
  have "\<forall>(u, n) \<in> set (st_fetched (main site_config site_world)).
          is_within_root u (cfg_root site_config)
          \<and> should_skip_url (env_checks site_world) u = Inr False"
    using crawl_stays_within_root [of site_config site_world] by blast
  then have "is_within_root ''https://site/root/index.html'' (cfg_root site_config)
   \<and> should_skip_url (env_checks site_world) ''https://site/root/index.html'' = Inr False
   \<and> is_within_root ''https://site/root/a.html'' (cfg_root site_config)
   \<and> should_skip_url (env_checks site_world) ''https://site/root/a.html'' = Inr False
   \<and> is_within_root ''https://site/root/b.html'' (cfg_root site_config)
   \<and> should_skip_url (env_checks site_world) ''https://site/root/b.html'' = Inr False"
    unfolding site_run(1) by simp
  moreover have "st_fetched (main (site_config\<lparr>cfg_start := ''https://site/root/logo.png''\<rparr>) site_world) = []"
    by code_simp
  moreover have "st_fetched (main (site_config\<lparr>cfg_start := ''https://other.org/x.html''\<rparr>) site_world) = []"
    by code_simp
  ultimately show ?thesis by (simp add: site_run(1))
qed

text \<open>
  C6, as amended: every call of \<^verbatim>\<open>fetch\<close> happens while the count of saved pages is below
  the maximum; the count is the number of files written and never exceeds the maximum, or
  zero when the maximum is negative; the loop makes another pass exactly when the queue is
  not empty, the count is below the maximum and no exception has ended the run; and a run
  that no exception ended stops with an empty queue or with the count at the maximum.
\<close>

theorem crawl_respects_max_pages:
  "reachable cfg world (main cfg world)
   \<and> (\<forall>s. reachable cfg world s \<longrightarrow>
        (\<forall>(u, n) \<in> set (st_fetched s). n < cfg_max_pages cfg)
      \<and> st_saved s = int (length (st_written s))
      \<and> st_saved s \<le> max 0 (cfg_max_pages cfg))
   \<and> (\<forall>s. crawl_loop cfg world s =
          (if st_queue s \<noteq> [] \<and> st_saved s < cfg_max_pages cfg \<and> st_failure s = None
           then crawl_loop cfg world (loop_body cfg world s) else s))
   \<and> (st_failure (main cfg world) = None \<longrightarrow>
        st_queue (main cfg world) = [] \<or> cfg_max_pages cfg \<le> st_saved (main cfg world))"
proof (intro conjI allI impI)
  show "reachable cfg world (main cfg world)" by (rule main_reachable)
next
  fix s assume "reachable cfg world s"
  then have inv: "crawl_inv cfg world s" by (rule reachable_inv)
  then show "\<forall>(u, n) \<in> set (st_fetched s). n < cfg_max_pages cfg"
    unfolding crawl_inv_def by blast
  from inv show "st_saved s = int (length (st_written s))" by (simp add: crawl_inv_def)
  from inv show "st_saved s \<le> max 0 (cfg_max_pages cfg)" by (simp add: crawl_inv_def)
next
  fix s
  show "crawl_loop cfg world s =
          (if st_queue s \<noteq> [] \<and> st_saved s < cfg_max_pages cfg \<and> st_failure s = None
           then crawl_loop cfg world (loop_body cfg world s) else s)"
    by (subst crawl_loop.simps) (simp add: loop_cond_def)
next
  assume "st_failure (main cfg world) = None"
  moreover have "\<not> loop_cond cfg (main cfg world)"
    unfolding main_def by (rule crawl_loop_final)
  ultimately show "st_queue (main cfg world) = [] \<or> cfg_max_pages cfg \<le> st_saved (main cfg world)"
    by (auto simp: loop_cond_def)
qed

text \<open>
  The theorem at the run of the small site: the run stops at two saved pages with a URL left
  in the queue, and the three fetches happened at the counts 0, 1 and 1.
\<close>

theorem crawl_respects_max_pages_witness:
  "cfg_max_pages site_config = 2
   \<and> st_fetched (main site_config site_world)
     = [(''https://site/root/index.html'', 0), (''https://site/root/a.html'', 1),
        (''https://site/root/b.html'', 1)]
   \<and> st_saved (main site_config site_world) = 2
   \<and> st_queue (main site_config site_world) = [''https://site/root/c.html'']
   \<and> st_saved (main site_config site_world) \<le> max 0 (cfg_max_pages site_config)"
proof -
  have "st_saved (main site_config site_world) \<le> max 0 (cfg_max_pages site_config)"
    using crawl_respects_max_pages [of site_config site_world] by blast
  moreover have "cfg_max_pages site_config = 2" by (simp add: site_config_def)
  ultimately show ?thesis by (simp add: site_run)
qed

text \<open>
  C6 as stated fails: with the maximum \<open>-1\<close> the count 0 exceeds the maximum; and a run
  ends with a URL in the queue and the count below the maximum when \<^const>\<open>url_to_outpath\<close>
  raises \<^verbatim>\<open>ValueError\<close> for a fetched page.
\<close>

theorem crawl_negative_maximum_and_failure:
  "cfg_max_pages (site_config\<lparr>cfg_max_pages := -1\<rparr>) = -1
   \<and> st_saved (main (site_config\<lparr>cfg_max_pages := -1\<rparr>) site_world) = 0
   \<and> \<not> st_saved (main (site_config\<lparr>cfg_max_pages := -1\<rparr>) site_world)
        \<le> cfg_max_pages (site_config\<lparr>cfg_max_pages := -1\<rparr>)
   \<and> st_failure (main (site_config\<lparr>cfg_start := ''https://site/root/'', cfg_max_pages := 500\<rparr>) site_world)
       = Some ValueError
   \<and> st_queue (main (site_config\<lparr>cfg_start := ''https://site/root/'', cfg_max_pages := 500\<rparr>) site_world)
       = [''https://site/root/b.html'']
   \<and> st_saved (main (site_config\<lparr>cfg_start := ''https://site/root/'', cfg_max_pages := 500\<rparr>) site_world)
       = 1"
  by code_simp

text \<open>
  C2, as amended: \<^const>\<open>fetch\<close> returns the body exactly when the request returns a response
  whose status code is outside 400 to 599, and fails exactly when the request fails (network
  error, timeout) or the status code is in 400 to 599.
\<close>

theorem fetch_result:
  "(fetch world url timeout = Inr body \<longleftrightarrow>
      (\<exists>r. env_get world url timeout = Inr r
           \<and> \<not> (400 \<le> status_code r \<and> status_code r < 600) \<and> body = body_text r))
   \<and> (fetch world url timeout = Inl e \<longleftrightarrow>
      (env_get world url timeout = Inl e
       \<or> (\<exists>r. env_get world url timeout = Inr r
              \<and> 400 \<le> status_code r \<and> status_code r < 600 \<and> e = HTTPError (status_code r))))"
  by (cases "env_get world url timeout")
     (auto simp: fetch_def raise_for_status_def split: sum.splits)

text \<open>
  The theorem at the small site: a page served with status 200, a page answered with 404, and
  a URL the site does not serve.
\<close>

theorem fetch_result_witness:
  "fetch site_world ''https://site/root/index.html'' 30 = Inr ''index''
   \<and> fetch site_world ''https://site/root/a.html'' 30 = Inl (HTTPError 404)
   \<and> fetch site_world ''https://site/root/missing.html'' 30 = Inl ConnectionFailed"
proof -
  have g1: "env_get site_world ''https://site/root/index.html'' 30
            = Inr \<lparr>status_code = 200, body_text = ''index''\<rparr>"
    and g2: "env_get site_world ''https://site/root/a.html'' 30
            = Inr \<lparr>status_code = 404, body_text = ''gone''\<rparr>"
    and g3: "env_get site_world ''https://site/root/missing.html'' 30 = Inl ConnectionFailed"
    by (simp_all add: site_world_def)
  have 1: "fetch site_world ''https://site/root/index.html'' 30 = Inr ''index''"
    using fetch_result [of site_world "''https://site/root/index.html''" 30 "''index''"] g1
    by simp
  have 2: "fetch site_world ''https://site/root/a.html'' 30 = Inl (HTTPError 404)"
    using fetch_result [of site_world "''https://site/root/a.html''" 30 _ "HTTPError 404"] g2
    by simp
  have 3: "fetch site_world ''https://site/root/missing.html'' 30 = Inl ConnectionFailed"
    using fetch_result [of site_world "''https://site/root/missing.html''" 30 _ ConnectionFailed] g3
    by simp
  from 1 2 3 show ?thesis by blast
qed

text \<open>
  C2 as stated fails: for a response with the status code 300, which is not a 2xx code,
  \<^const>\<open>fetch\<close> returns the body.
\<close>

theorem fetch_returns_body_of_status_300:
  "env_get redirect_world ''https://site/root/index.html'' 30
     = Inr \<lparr>status_code = 300, body_text = ''choices''\<rparr>
   \<and> \<not> (200 \<le> (300::int) \<and> (300::int) < 300)
   \<and> fetch redirect_world ''https://site/root/index.html'' 30 = Inr ''choices''"
  by (simp add: redirect_world_def fetch_def raise_for_status_def)

subsection \<open>Link extraction\<close>

lemma extract_loop_Cons:
  "extract_loop hc base_url (a # others) links =
     (case resolve_href hc base_url a of
        Inl e \<Rightarrow> Inl e
      | Inr None \<Rightarrow> extract_loop hc base_url others links
      | Inr (Some d) \<Rightarrow> extract_loop hc base_url others (set_add d links))"
  by (cases a) (simp_all add: resolve_href_def Let_def split: sum.splits)

lemma set_add_props: "distinct links \<Longrightarrow> distinct (set_add d links) \<and> set (set_add d links) = insert d (set links)"
  by (auto simp: set_add_def)

lemma extract_loop_result:
  "extract_loop hc base_url as links = Inr out \<Longrightarrow> distinct links \<Longrightarrow>
     distinct out
     \<and> set out = set links \<union> {d. \<exists>a\<in>set as. resolve_href hc base_url a = Inr (Some d)}"
proof (induction as arbitrary: links)
  case Nil then show ?case by simp
next
  case (Cons a as)
  show ?case
  proof (cases "resolve_href hc base_url a")
    case (Inl e)
    with Cons.prems show ?thesis by (simp add: extract_loop_Cons)
  next
    case (Inr r)
    show ?thesis
    proof (cases r)
      case None
      with Inr Cons.prems have "extract_loop hc base_url as links = Inr out"
        by (simp add: extract_loop_Cons)
      from Cons.IH [OF this Cons.prems(2)] Inr None show ?thesis by auto
    next
      case (Some d)
      with Inr Cons.prems have e: "extract_loop hc base_url as (set_add d links) = Inr out"
        by (simp add: extract_loop_Cons)
      from set_add_props [OF Cons.prems(2), of d]
      have "distinct (set_add d links)" and s: "set (set_add d links) = insert d (set links)"
        by simp_all
      from Cons.IH [OF e this(1)] s Inr Some show ?thesis by auto
    qed
  qed
qed

lemma extract_loop_returns:
  "(\<exists>out. extract_loop hc base_url as links = Inr out)
     \<longleftrightarrow> (\<forall>a\<in>set as. \<exists>r. resolve_href hc base_url a = Inr r)"
proof (induction as arbitrary: links)
  case Nil then show ?case by simp
next
  case (Cons a as)
  show ?case
  proof (cases "resolve_href hc base_url a")
    case (Inl e)
    then show ?thesis by (auto simp: extract_loop_Cons)
  next
    case (Inr r)
    then show ?thesis using Cons.IH by (cases r) (auto simp: extract_loop_Cons)
  qed
qed

text \<open>
  C8, as amended: link extraction returns exactly when every hyperlink can be resolved (its
  target is a string, and neither \<^verbatim>\<open>urljoin\<close> nor \<^verbatim>\<open>urldefrag\<close> raises); what it returns
  is without repetition and holds, for every hyperlink whose target is not empty after
  trimming and does not start with \<^verbatim>\<open>mailto:\<close> or \<^verbatim>\<open>javascript:\<close>, the target resolved
  against the URL of the page with the fragment stripped, and nothing else.
\<close>

theorem extract_links_resolved:
  "((\<exists>links. extract_links hc soup base_url = Inr links)
      \<longleftrightarrow> (\<forall>a\<in>set (anchors soup). \<exists>r. resolve_href hc base_url a = Inr r))
   \<and> (\<forall>links. extract_links hc soup base_url = Inr links \<longrightarrow>
         distinct links
         \<and> set links = {d. \<exists>a\<in>set (anchors soup). resolve_href hc base_url a = Inr (Some d)})"
proof (intro conjI allI impI)
  show "(\<exists>links. extract_links hc soup base_url = Inr links)
      \<longleftrightarrow> (\<forall>a\<in>set (anchors soup). \<exists>r. resolve_href hc base_url a = Inr r)"
    unfolding extract_links_def by (rule extract_loop_returns)
next
  fix links assume a: "extract_links hc soup base_url = Inr links"
  then have "extract_loop hc base_url (anchors soup) [] = Inr links"
    by (simp add: extract_links_def)
  from extract_loop_result [OF this] show "distinct links" by simp
  from extract_loop_result [OF \<open>extract_loop hc base_url (anchors soup) [] = Inr links\<close>]
  show "set links = {d. \<exists>a\<in>set (anchors soup). resolve_href hc base_url a = Inr (Some d)}"
    by simp
qed

text \<open>
  The hyperlinks of the example page and what each contributes.
\<close>

lemma example_anchor_values:
  "anchors example_anchors
     = [AttrStr ''../x/y.html#frag'', AttrStr '' ../x/y.html#other '', AttrStr ''mailto:a@b'',
        AttrStr ''  '']"
  "resolve_href strict_checks example_base (AttrStr ''../x/y.html#frag'')
     = Inr (Some ''https://site/root/x/y.html'')"
  "resolve_href strict_checks example_base (AttrStr '' ../x/y.html#other '')
     = Inr (Some ''https://site/root/x/y.html'')"
  "resolve_href strict_checks example_base (AttrStr ''mailto:a@b'') = Inr None"
  "resolve_href strict_checks example_base (AttrStr ''  '') = Inr None"
  "urljoin strict_checks example_base ''../x/y.html#frag'' = Inr ''https://site/root/x/y.html#frag''"
  by code_simp+

text \<open>
  The theorem at the example: \<^verbatim>\<open>../x/y.html#frag\<close> against
  \<^verbatim>\<open>https://site/root/sub/page.html\<close> gives \<^verbatim>\<open>https://site/root/x/y.html\<close>, and the link
  that differs in its fragment only adds no second entry.
\<close>

theorem extract_links_resolved_witness:
  "extract_links strict_checks example_anchors example_base = Inr [''https://site/root/x/y.html'']
   \<and> urljoin strict_checks example_base ''../x/y.html#frag'' = Inr ''https://site/root/x/y.html#frag''
   \<and> urldefrag strict_checks ''https://site/root/x/y.html#frag'' = Inr ''https://site/root/x/y.html''"
proof -
  note t = extract_links_resolved [of strict_checks example_anchors example_base]
  have "\<forall>a\<in>set (anchors example_anchors). \<exists>r. resolve_href strict_checks example_base a = Inr r"
    by (simp add: example_anchor_values)
  with t obtain links where l: "extract_links strict_checks example_anchors example_base = Inr links"
    by blast
  with t have d: "distinct links"
    and s: "set links = {d. \<exists>a\<in>set (anchors example_anchors).
                            resolve_href strict_checks example_base a = Inr (Some d)}"
    by blast+
  have "{d. \<exists>a\<in>set (anchors example_anchors).
             resolve_href strict_checks example_base a = Inr (Some d)}
        = {''https://site/root/x/y.html''}"
    by (auto simp: example_anchor_values)
  with s have "set links = {''https://site/root/x/y.html''}" by simp
  with d have "links = [''https://site/root/x/y.html'']"
    by (cases links) (auto simp: insert_ident dest: subset_singletonD)
  moreover have "urldefrag strict_checks ''https://site/root/x/y.html#frag'' = Inr ''https://site/root/x/y.html''"
    by code_simp
  ultimately show ?thesis using l example_anchor_values(6) by simp
qed

text \<open>
  C8 as stated fails: for a page with a link to \<^verbatim>\<open>//[\<close> link extraction returns nothing;
  \<^verbatim>\<open>urljoin\<close> raises \<^verbatim>\<open>ValueError\<close> (an IPv6 host without its closing bracket).
\<close>

theorem extract_links_unbalanced_bracket:
  "anchors (site_links [''//['']) = [AttrStr ''//['']
   \<and> py_strip ''//['' = ''//[''
   \<and> extract_links strict_checks (site_links [''//['']) example_base = Inl ValueError"
  by code_simp

end
